theory Spec2Isabelle
  imports Main "HOL-Library.Multiset"
begin

section \<open>Python values and exceptions\<close>

text \<open>
  The program is Python 2. An uncaught exception is a value \<open>Inl e\<close> of the result type
  \<open>error + 'a\<close>; the exception keeps its class and its message, so that two \<open>IndexError\<close>s
  raised at different places stay apart.
\<close>

datatype error =
    IndexError string
  | TypeError string
  | ValueError string
  | StopIteration

text \<open>The messages the program's own \<open>raise\<close> statements carry.\<close>

definition even_items_msg :: string where
  "even_items_msg = ''The list must have an even number of items.''"

definition no_list_msg :: string where
  "no_list_msg = ''No list to move an item from exists.''"

text \<open>The messages of the interpreter's own exceptions.\<close>

definition pop_empty_msg :: string where
  "pop_empty_msg = ''pop from empty list''"

definition pop_range_msg :: string where
  "pop_range_msg = ''pop index out of range''"

definition index_range_msg :: string where
  "index_range_msg = ''list index out of range''"

definition none_item_msg :: string where
  "none_item_msg = ''NoneType object has no attribute __getitem__''"

text \<open>\<open>lst.pop(i)\<close> for a non-negative index: the item and the list without it.\<close>

definition pop :: "'a list \<Rightarrow> nat \<Rightarrow> error + ('a \<times> 'a list)" where
  "pop xs i =
     (if xs = [] then Inl (IndexError pop_empty_msg)
      else if length xs \<le> i then Inl (IndexError pop_range_msg)
      else Inr (xs ! i, take i xs @ drop (Suc i) xs))"

section \<open>all_pairs: the enumerator of perfect matchings\<close>

text \<open>\<open>xrange(start, stop, step)\<close> for a positive step.\<close>

definition xrange_step :: "nat \<Rightarrow> nat \<Rightarrow> nat \<Rightarrow> nat list" where
  "xrange_step start stop step =
     map (\<lambda>j. start + j * step) [0..<(stop + step - 1 - start) div step]"

text \<open>\<open>itertools.product(*iterables)\<close>: the rightmost position varies fastest.\<close>

primrec itertools_product :: "'a list list \<Rightarrow> 'a list list" where
  "itertools_product [] = [[]]"
| "itertools_product (xs # xss) =
     concat (map (\<lambda>x. map (Cons x) (itertools_product xss)) xs)"

text \<open>
  \<open>choice_indices = itertools.product(*[xrange(k) for k in reversed(xrange(1, list_length, 2))])\<close>
\<close>

definition choice_indices :: "nat \<Rightarrow> nat list list" where
  "choice_indices list_length =
     itertools_product (map (\<lambda>k. [0..<k]) (rev (xrange_step 1 list_length 2)))"

text \<open>
  The inner loop \<open>for index in choice: result.append((tmp.pop(0), tmp.pop(index)))\<close>,
  on the working copy \<open>tmp\<close> and the \<open>result\<close> built so far.
\<close>

fun consume :: "'a list \<Rightarrow> nat list \<Rightarrow> ('a \<times> 'a) list \<Rightarrow> error + ('a \<times> 'a) list" where
  "consume tmp [] result = Inr result"
| "consume tmp (index # choice) result =
     (case pop tmp 0 of
        Inl e \<Rightarrow> Inl e
      | Inr (a, tmp1) \<Rightarrow>
          (case pop tmp1 index of
             Inl e \<Rightarrow> Inl e
           | Inr (b, tmp2) \<Rightarrow> consume tmp2 choice (result @ [(a, b)])))"

text \<open>The outer loop \<open>for choice in choice_indices: ... yield result\<close>, collected.\<close>

fun yield_all :: "'a list \<Rightarrow> nat list list \<Rightarrow> error + ('a \<times> 'a) list list" where
  "yield_all lst [] = Inr []"
| "yield_all lst (choice # choices) =
     (case consume lst choice [] of
        Inl e \<Rightarrow> Inl e
      | Inr result \<Rightarrow>
          (case yield_all lst choices of
             Inl e \<Rightarrow> Inl e
           | Inr results \<Rightarrow> Inr (result # results)))"

text \<open>
  \<open>all_pairs(lst)\<close>: the matchings the generator yields, in the order it yields them,
  or the exception that ends the iteration.
\<close>

definition all_pairs :: "'a list \<Rightarrow> error + ('a \<times> 'a) list list" where
  "all_pairs lst =
     (let list_length = length lst in
      if list_length mod 2 \<noteq> 0 then Inl (ValueError even_items_msg)
      else yield_all lst (choice_indices list_length))"

section \<open>The database\<close>

text \<open>
  The tables \<open>players (id, name, had_bye)\<close> and \<open>matches (winner_pid, loser_pid)\<close>, as
  the queries of the program use them. A row list is in the order in which a query
  without \<open>ORDER BY\<close> returns it. A bye is a match row whose \<open>loser_pid\<close> is null.
\<close>

record player_row =
  row_id :: int
  row_name :: string
  row_had_bye :: bool

type_synonym match_row = "int \<times> int option"

record database =
  players :: "player_row list"
  matches :: "match_row list"

type_synonym standing = "int \<times> string \<times> nat \<times> nat"

type_synonym pairing = "int \<times> string \<times> int \<times> string"

text \<open>
  Modelled from the spec: the SQL views \<open>num_wins (id, wins)\<close> and
  \<open>num_matches_wins (id, wins, matches)\<close> are read by the program but declared in the
  schema, which is not among the sources. The spec's data model gives their columns:
  \<open>wins\<close> is the count of matches won (a bye is an uncontested win) and
  \<open>matchesPlayed\<close> the count of matches played, one row for each player.
\<close>

definition wins_of :: "database \<Rightarrow> int \<Rightarrow> nat" where
  "wins_of db p = length (filter (\<lambda>m. fst m = p) (matches db))"

definition matches_of :: "database \<Rightarrow> int \<Rightarrow> nat" where
  "matches_of db p = length (filter (\<lambda>m. fst m = p \<or> snd m = Some p) (matches db))"

definition num_wins :: "database \<Rightarrow> (int \<times> nat) list" where
  "num_wins db = map (\<lambda>r. (row_id r, wins_of db (row_id r))) (players db)"

definition num_matches_wins :: "database \<Rightarrow> (int \<times> nat \<times> nat) list" where
  "num_matches_wins db =
     map (\<lambda>r. (row_id r, wins_of db (row_id r), matches_of db (row_id r))) (players db)"

text \<open>
  \<open>playerStandings()\<close>: the join of \<open>players\<close> with \<open>num_matches_wins\<close> on the id,
  \<open>ORDER BY wins desc\<close> (a stable sort of the join's rows).
\<close>

definition playerStandings :: "database \<Rightarrow> standing list" where
  "playerStandings db =
     sort_key (\<lambda>s. - int (fst (snd (snd s))))
       [(fst v, row_name p, fst (snd v), snd (snd v)).
          p \<leftarrow> players db, v \<leftarrow> num_matches_wins db, row_id p = fst v]"

definition already_had_bye_msg :: string where
  "already_had_bye_msg = ''Error: Player has already had a bye.''"

text \<open>
  \<open>reportMatch(winner, loser=None)\<close>: what it prints and the database it commits. An
  exception leaves the database as it was (the connection closes uncommitted).
\<close>

definition reportMatch :: "database \<Rightarrow> int \<Rightarrow> int option \<Rightarrow> error + (string list \<times> database)" where
  "reportMatch db winner loser =
     (case loser of
        None \<Rightarrow>
          (case filter (\<lambda>p. row_id p = winner) (players db) of
             [] \<Rightarrow> Inl (TypeError none_item_msg)
           | r # _ \<Rightarrow>
               if row_had_bye r then Inr ([already_had_bye_msg], db)
               else Inr ([], db\<lparr>players :=
                                  map (\<lambda>p. if row_id p = winner then p\<lparr>row_had_bye := True\<rparr> else p)
                                    (players db),
                                matches := matches db @ [(winner, None)]\<rparr>))
      | Some l \<Rightarrow> Inr ([], db\<lparr>matches := matches db @ [(winner, Some l)]\<rparr>))"

text \<open>The database after a call, whether it returned or raised.\<close>

definition database_after :: "database \<Rightarrow> error + (string list \<times> database) \<Rightarrow> database" where
  "database_after db r = (case r of Inl e \<Rightarrow> db | Inr (out, db') \<Rightarrow> db')"

text \<open>A series of \<open>reportMatch\<close> calls, each on the database the one before left.\<close>

fun report_all :: "database \<Rightarrow> (int \<times> int option) list \<Rightarrow> database" where
  "report_all db [] = db"
| "report_all db (call # calls) =
     report_all (database_after db (reportMatch db (fst call) (snd call))) calls"

text \<open>\<open>check_for_rematch(player_id1, player_id2)\<close>\<close>

definition check_for_rematch :: "database \<Rightarrow> int \<Rightarrow> int \<Rightarrow> bool" where
  "check_for_rematch db player_id1 player_id2 =
     list_ex (\<lambda>m. (fst m = player_id1 \<and> snd m = Some player_id2) \<or>
                   (fst m = player_id2 \<and> snd m = Some player_id1)) (matches db)"

text \<open>\<open>id_to_name(player_id)\<close>: \<open>fetchone()[0]\<close> raises on an empty result.\<close>

definition id_to_name :: "database \<Rightarrow> int \<Rightarrow> error + string" where
  "id_to_name db player_id =
     (case filter (\<lambda>p. row_id p = player_id) (players db) of
        [] \<Rightarrow> Inl (TypeError none_item_msg)
      | r # _ \<Rightarrow> Inr (row_name r))"

text \<open>
  \<open>select_player_for_bye()\<close>: the first row of the join of \<open>players\<close> with \<open>num_wins\<close>
  restricted to \<open>had_bye = FALSE\<close>, \<open>ORDER BY wins\<close>.
\<close>

definition select_player_for_bye :: "database \<Rightarrow> error + int" where
  "select_player_for_bye db =
     (case sort_key snd
             [(row_id p, snd v).
                p \<leftarrow> players db, v \<leftarrow> num_wins db, row_had_bye p = False \<and> row_id p = fst v] of
        [] \<Rightarrow> Inl (TypeError none_item_msg)
      | r # _ \<Rightarrow> Inr (fst r))"

section \<open>Rebalancing the win groups\<close>

text \<open>
  \<open>move_item_to_list(list_of_lists, target_list_idx)\<close>, returning the list of lists it
  leaves. The argument of \<open>append\<close> is evaluated first: when \<open>pop(0)\<close> raises, nothing
  has been changed.
\<close>

definition move_item_to_list :: "'a list list \<Rightarrow> nat \<Rightarrow> error + 'a list list" where
  "move_item_to_list list_of_lists target_list_idx =
     (if target_list_idx + 2 > length list_of_lists then Inl (IndexError no_list_msg)
      else
        (case pop (list_of_lists ! (target_list_idx + 1)) 0 of
           Inl e \<Rightarrow> Inl e
         | Inr (item, rest) \<Rightarrow>
             (let lol1 = list_of_lists[target_list_idx + 1 := rest];
                  lol2 = lol1[target_list_idx := lol1 ! target_list_idx @ [item]]
              in Inr (if length (lol2 ! (target_list_idx + 1)) = 0
                      then take (target_list_idx + 1) lol2 @ drop (target_list_idx + 2) lol2
                      else lol2))))"

text \<open>
  The loop \<open>for i in xrange(0, len(win_groups)): if len(win_groups[i]) % 2 != 0:
  move_item_to_list(win_groups, i)\<close>, over the indices still to visit. The range is
  computed once, before the loop; \<open>win_groups[i]\<close> raises when the list has become
  shorter than \<open>i + 1\<close>.
\<close>

fun evenness_loop :: "nat list \<Rightarrow> 'a list list \<Rightarrow> error + 'a list list" where
  "evenness_loop [] win_groups = Inr win_groups"
| "evenness_loop (i # is) win_groups =
     (if length win_groups \<le> i then Inl (IndexError index_range_msg)
      else if length (win_groups ! i) mod 2 \<noteq> 0 then
        (case move_item_to_list win_groups i of
           Inl e \<Rightarrow> Inl e
         | Inr win_groups' \<Rightarrow> evenness_loop is win_groups')
      else evenness_loop is win_groups)"

definition evenness_pass :: "'a list list \<Rightarrow> error + 'a list list" where
  "evenness_pass win_groups = evenness_loop [0..<length win_groups] win_groups"

section \<open>generate_pairings: resolving the win groups\<close>

text \<open>The loop \<open>for pair in pairs\<close> that sets \<open>contains_rematch\<close> and breaks.\<close>

fun contains_rematch :: "database \<Rightarrow> (int \<times> int) list \<Rightarrow> bool" where
  "contains_rematch db [] = False"
| "contains_rematch db (pair # pairs) =
     (if check_for_rematch db (fst pair) (snd pair) then True else contains_rematch db pairs)"

text \<open>The loop \<open>for pair in pairs\<close> that appends the named pairings.\<close>

fun name_pairs :: "database \<Rightarrow> (int \<times> int) list \<Rightarrow> pairing list \<Rightarrow> error + pairing list" where
  "name_pairs db [] pairings = Inr pairings"
| "name_pairs db (pair # pairs) pairings =
     (case id_to_name db (fst pair) of
        Inl e \<Rightarrow> Inl e
      | Inr player1_name \<Rightarrow>
          (case id_to_name db (snd pair) of
             Inl e \<Rightarrow> Inl e
           | Inr player2_name \<Rightarrow>
               name_pairs db pairs
                 (pairings @ [(fst pair, player1_name, snd pair, player2_name)])))"

text \<open>
  The loop \<open>for pairs in all_pairs(win_group)\<close>: \<open>Some\<close> of the pairings once a
  candidate without rematch is found (\<open>win_group_success\<close>), \<open>None\<close> when the
  candidates are exhausted.
\<close>

fun try_candidates ::
  "database \<Rightarrow> (int \<times> int) list list \<Rightarrow> pairing list \<Rightarrow> error + pairing list option" where
  "try_candidates db [] pairings = Inr None"
| "try_candidates db (pairs # candidates) pairings =
     (if contains_rematch db pairs then try_candidates db candidates pairings
      else (case name_pairs db pairs pairings of
              Inl e \<Rightarrow> Inl e
            | Inr pairings' \<Rightarrow> Inr (Some pairings')))"

text \<open>
  The loop \<open>for idx, win_group in enumerate(win_groups)\<close>; the result is the pair
  \<open>(pairings, None)\<close> or \<open>(None, idx)\<close> that \<open>generate_pairings\<close> returns.
\<close>

fun generate_loop ::
  "database \<Rightarrow> nat \<Rightarrow> int list list \<Rightarrow> pairing list \<Rightarrow>
   error + (pairing list option \<times> nat option)" where
  "generate_loop db idx [] pairings = Inr (Some pairings, None)"
| "generate_loop db idx (win_group # win_groups) pairings =
     (case all_pairs win_group of
        Inl e \<Rightarrow> Inl e
      | Inr candidates \<Rightarrow>
          (case try_candidates db candidates pairings of
             Inl e \<Rightarrow> Inl e
           | Inr None \<Rightarrow> Inr (None, Some idx)
           | Inr (Some pairings') \<Rightarrow> generate_loop db (idx + 1) win_groups pairings'))"

definition generate_pairings ::
  "database \<Rightarrow> int list list \<Rightarrow> error + (pairing list option \<times> nat option)" where
  "generate_pairings db win_groups = generate_loop db 0 win_groups []"

section \<open>The repair loop\<close>

text \<open>
  What \<open>move_item_to_list\<close> does, by the shape of its argument: no next list, an empty
  next list, or a next list whose first item moves.
\<close>

lemma move_item_to_list_short:
  "length gs < i + 2 \<Longrightarrow> move_item_to_list gs i = Inl (IndexError no_list_msg)"
  by (simp add: move_item_to_list_def)

lemma move_item_to_list_empty:
  "move_item_to_list (pre @ g # [] # post) (length pre) = Inl (IndexError pop_empty_msg)"
  by (simp add: move_item_to_list_def pop_def nth_append)

lemma move_item_to_list_moved:
  "move_item_to_list (pre @ g # (x # h) # post) (length pre) =
     Inr (pre @ (g @ [x]) # (if h = [] then post else h # post))"
  by (simp add: move_item_to_list_def pop_def nth_append list_update_append Let_def)

lemma split_at_two:
  assumes "i + 2 \<le> length gs"
  obtains pre g h post where "gs = pre @ g # h # post" "length pre = i"
proof -
  have "gs = take i gs @ gs ! i # gs ! (i + 1) # drop (i + 2) gs"
    using assms by (simp add: Cons_nth_drop_Suc)
  moreover have "length (take i gs) = i"
    using assms by simp
  ultimately show ?thesis by (rule that)
qed

lemma move_item_to_list_cases:
  obtains (short) "length gs < i + 2" "move_item_to_list gs i = Inl (IndexError no_list_msg)"
  | (empty) pre g post where "gs = pre @ g # [] # post" "length pre = i"
      "move_item_to_list gs i = Inl (IndexError pop_empty_msg)"
  | (moved) pre g x h post where "gs = pre @ g # (x # h) # post" "length pre = i"
      "move_item_to_list gs i = Inr (pre @ (g @ [x]) # (if h = [] then post else h # post))"
proof (cases "length gs < i + 2")
  case True
  then show ?thesis using short move_item_to_list_short by blast
next
  case False
  then have "i + 2 \<le> length gs" by simp
  then obtain pre g h post where gs: "gs = pre @ g # h # post" and i: "length pre = i"
    by (rule split_at_two)
  show ?thesis
  proof (cases h)
    case Nil
    show ?thesis
      by (rule empty [of pre g post]) (simp_all add: gs Nil i [symmetric] move_item_to_list_empty)
  next
    case (Cons x h')
    show ?thesis
      by (rule moved [of pre g x h' post])
         (simp_all only: gs Cons i [symmetric] move_item_to_list_moved)
  qed
qed

text \<open>The measure of the repair loop: every item counts once for each group before its own.\<close>

fun weight :: "'a list list \<Rightarrow> nat" where
  "weight [] = 0"
| "weight (g # gs) = length (concat gs) + weight gs"

lemma weight_append_less:
  "length (concat ys') \<le> length (concat ys) \<Longrightarrow> weight ys' < weight ys \<Longrightarrow>
   weight (pre @ ys') < weight (pre @ ys)"
  by (induction pre) auto

lemma move_item_to_list_weight:
  assumes "move_item_to_list gs i = Inr gs'"
  shows "weight gs' < weight gs"
proof (cases gs i rule: move_item_to_list_cases)
  case short
  with assms show ?thesis by simp
next
  case (empty pre g post)
  with assms show ?thesis by simp
next
  case (moved pre g x h post)
  have "weight (pre @ (g @ [x]) # (if h = [] then post else h # post))
      < weight (pre @ g # (x # h) # post)"
    by (rule weight_append_less) auto
  with moved assms show ?thesis by simp
qed

lemma move_item_to_list_mset:
  assumes "move_item_to_list gs i = Inr gs'"
  shows "mset (concat gs') = mset (concat gs)"
proof (cases gs i rule: move_item_to_list_cases)
  case short
  with assms show ?thesis by simp
next
  case (empty pre g post)
  with assms show ?thesis by simp
next
  case (moved pre g x h post)
  with assms show ?thesis by auto
qed

text \<open>
  The loop \<open>while pairing_success is False\<close> of \<open>swissPairings\<close>: \<open>Some\<close> of the
  pairings of \<open>generate_pairings\<close>, or \<open>None\<close> when the failing group is the last one.
  Each repair moves items towards the front, so the loop ends.
\<close>

function resolve :: "database \<Rightarrow> int list list \<Rightarrow> error + pairing list option" where
  "resolve db win_groups =
     (case generate_pairings db win_groups of
        Inl e \<Rightarrow> Inl e
      | Inr (pairings_res, error_in_group) \<Rightarrow>
          (case error_in_group of
             None \<Rightarrow> Inr pairings_res
           | Some idx \<Rightarrow>
               if idx + 2 > length win_groups then Inr None
               else
                 (case move_item_to_list win_groups idx of
                    Inl e \<Rightarrow> Inl e
                  | Inr win_groups1 \<Rightarrow>
                      (case move_item_to_list win_groups1 idx of
                         Inl e \<Rightarrow> Inl e
                       | Inr win_groups2 \<Rightarrow> resolve db win_groups2))))"
  by pat_completeness auto
termination
proof (relation "measure (\<lambda>(db, win_groups). weight win_groups)")
  show "wf (measure (\<lambda>(db, win_groups). weight win_groups))" by simp
next
  fix db :: database and win_groups win_groups1 win_groups2 :: "int list list" and idx :: nat
  assume "move_item_to_list win_groups idx = Inr win_groups1"
    and "move_item_to_list win_groups1 idx = Inr win_groups2"
  then have "weight win_groups2 < weight win_groups"
    using move_item_to_list_weight less_trans by blast
  then show "((db, win_groups2), (db, win_groups)) \<in> measure (\<lambda>(db, win_groups). weight win_groups)"
    by simp
qed

declare resolve.simps [simp del]

section \<open>swissPairings\<close>

definition bye_marker :: string where
  "bye_marker = ''Give a Bye''"

definition incomplete_round_msg :: string where
  "incomplete_round_msg = ''Incomplete previous round. Please report more matches.''"

definition overall_winner_msg :: string where
  "overall_winner_msg = ''An overall winner already exists. No further round required.''"

definition no_pairings_msg :: string where
  "no_pairings_msg = ''Error: Can't find a set of pairings with no repeats.''"

definition max_empty_msg :: string where
  "max_empty_msg = ''max() arg is an empty sequence''"

text \<open>
  The loop \<open>for home_player in standings_it\<close> of \<open>random_pairing\<close>, on what is left of
  the iterator; \<open>next(standings_it)\<close> raises \<open>StopIteration\<close> when nothing is left.
\<close>

fun pairing_loop :: "bool \<Rightarrow> bool \<Rightarrow> standing list \<Rightarrow> pairing list \<Rightarrow> error + pairing list" where
  "pairing_loop have_odd_players dealt_with_bye [] pairings = Inr pairings"
| "pairing_loop have_odd_players dealt_with_bye (home_player # standings_it) pairings =
     (if have_odd_players \<and> \<not> dealt_with_bye then
        pairing_loop have_odd_players True standings_it
          (pairings @ [(fst home_player, fst (snd home_player), fst home_player, bye_marker)])
      else
        (case standings_it of
           [] \<Rightarrow> Inl StopIteration
         | away_player # standings_it' \<Rightarrow>
             pairing_loop have_odd_players dealt_with_bye standings_it'
               (pairings @ [(fst home_player, fst (snd home_player),
                             fst away_player, fst (snd away_player))])))"

text \<open>
  \<open>random_pairing(standings, pairings)\<close>; \<open>shuffle\<close> is the permutation that
  \<open>random.shuffle\<close> applies.
\<close>

definition random_pairing ::
  "(standing list \<Rightarrow> standing list) \<Rightarrow> standing list \<Rightarrow> pairing list \<Rightarrow> error + pairing list" where
  "random_pairing shuffle standings pairings =
     (let standings' = shuffle standings;
          have_odd_players = (length standings' mod 2 \<noteq> 0)
      in pairing_loop have_odd_players False standings' pairings)"

text \<open>\<open>SELECT id FROM num_wins WHERE wins=%s\<close>\<close>

definition win_group_query :: "database \<Rightarrow> nat \<Rightarrow> int list" where
  "win_group_query db wins = map fst (filter (\<lambda>v. snd v = wins) (num_wins db))"

text \<open>
  The loop that removes the bye player from the first win group holding it, and breaks.
\<close>

fun remove_from_groups :: "int \<Rightarrow> int list list \<Rightarrow> int list list" where
  "remove_from_groups bye_player_id [] = []"
| "remove_from_groups bye_player_id (win_group # win_groups) =
     (if count_list win_group bye_player_id > 0
      then remove1 bye_player_id win_group # win_groups
      else win_group # remove_from_groups bye_player_id win_groups)"

text \<open>The block \<open>if len(standings) % 2 != 0\<close> of \<open>swissPairings\<close>.\<close>

definition give_bye ::
  "database \<Rightarrow> int list list \<Rightarrow> pairing list \<Rightarrow> error + (int list list \<times> pairing list)" where
  "give_bye db win_groups pairings =
     (case select_player_for_bye db of
        Inl e \<Rightarrow> Inl e
      | Inr bye_player_id \<Rightarrow>
          (let win_groups' = remove_from_groups bye_player_id win_groups
           in case id_to_name db bye_player_id of
                Inl e \<Rightarrow> Inl e
              | Inr bye_player_name \<Rightarrow>
                  Inr (win_groups',
                       pairings @ [(bye_player_id, bye_player_name, bye_player_id, bye_marker)])))"

text \<open>
  \<open>swissPairings()\<close>: what it prints and what it returns (\<open>None\<close> or the pairings), or
  the exception it lets through.
\<close>

definition swissPairings ::
  "(standing list \<Rightarrow> standing list) \<Rightarrow> database \<Rightarrow> error + (string list \<times> pairing list option)" where
  "swissPairings shuffle db =
     (let pairings = [];
          standings = playerStandings db;
          matches = map (\<lambda>player. snd (snd (snd player))) standings
      in
      if sum_list matches = 0 then
        (case random_pairing shuffle standings pairings of
           Inl e \<Rightarrow> Inl e
         | Inr pairings' \<Rightarrow> Inr ([], Some pairings'))
      else
        (case matches of
           [] \<Rightarrow> Inl (ValueError max_empty_msg)
         | m # ms \<Rightarrow>
             if fold max ms m \<noteq> fold min ms m then Inr ([incomplete_round_msg], None)
             else
               (case standings of
                  [] \<Rightarrow> Inl (IndexError index_range_msg)
                | first # _ \<Rightarrow>
                    (let max_num_wins = fst (snd (snd first));
                         win_groups = map (win_group_query db) [0..<max_num_wins + 1]
                     in
                     if length (last win_groups) = 1 then Inr ([overall_winner_msg], None)
                     else
                       (case (if length standings mod 2 \<noteq> 0
                              then give_bye db win_groups pairings
                              else Inr (win_groups, pairings)) of
                          Inl e \<Rightarrow> Inl e
                        | Inr (win_groups1, pairings1) \<Rightarrow>
                            (case evenness_pass win_groups1 of
                               Inl e \<Rightarrow> Inl e
                             | Inr win_groups2 \<Rightarrow>
                                 (case resolve db win_groups2 of
                                    Inl e \<Rightarrow> Inl e
                                  | Inr None \<Rightarrow> Inr ([no_pairings_msg], None)
                                  | Inr (Some pairings_res) \<Rightarrow>
                                      Inr ([], Some (pairings1 @ pairings_res)))))))))"

text \<open>
  The outcomes of \<open>swissPairings\<close> that return \<open>None\<close>, named as the specification names
  them; each is told from the others by the line it prints.
\<close>

definition IncompleteRound :: "string list \<times> pairing list option" where
  "IncompleteRound = ([incomplete_round_msg], None)"

definition TournamentDecided :: "string list \<times> pairing list option" where
  "TournamentDecided = ([overall_winner_msg], None)"

definition UnresolvablePairing :: "string list \<times> pairing list option" where
  "UnresolvablePairing = ([no_pairings_msg], None)"

text \<open>
  A call of \<open>swissPairings\<close> with the database it leaves: the function and the functions
  it calls execute \<open>SELECT\<close> statements only and commit nothing.
\<close>

definition swissPairings_call ::
  "(standing list \<Rightarrow> standing list) \<Rightarrow> database \<Rightarrow>
   (error + (string list \<times> pairing list option)) \<times> database" where
  "swissPairings_call shuffle db = (swissPairings shuffle db, db)"

section \<open>The enumeration, as the specification words it\<close>

text \<open>The list without its item at position \<open>i\<close>.\<close>

definition remove_nth :: "nat \<Rightarrow> 'a list \<Rightarrow> 'a list" where
  "remove_nth i xs = take i xs @ drop (Suc i) xs"

lemma length_remove_nth: "i < length xs \<Longrightarrow> length (remove_nth i xs) = length xs - 1"
  by (simp add: remove_nth_def)

text \<open>
  The specification's wording of the enumeration: take the first remaining id, pair it
  with each other remaining id in turn, in their order, and for each choice recurse on
  what remains. It is compared with \<open>all_pairs\<close> below.
\<close>

function spec_matchings :: "'a list \<Rightarrow> ('a \<times> 'a) list list" where
  "spec_matchings [] = [[]]"
| "spec_matchings (x # xs) =
     concat (map (\<lambda>i. map (Cons (x, xs ! i)) (spec_matchings (remove_nth i xs))) [0..<length xs])"
  by pat_completeness auto
termination
  by (relation "measure length") (auto simp: length_remove_nth)

text \<open>\<open>(2k - 1)!! = 1 \<cdot> 3 \<cdot> \<dots> \<cdot> (2k - 1)\<close>, by the number \<open>k\<close> of pairs.\<close>

fun double_factorial_odd :: "nat \<Rightarrow> nat" where
  "double_factorial_odd 0 = 1"
| "double_factorial_odd (Suc k) = (2 * k + 1) * double_factorial_odd k"

text \<open>The ids of a matching, pair after pair.\<close>

definition flatten_pairs :: "('a \<times> 'a) list \<Rightarrow> 'a list" where
  "flatten_pairs m = concat (map (\<lambda>(a, b). [a, b]) m)"

text \<open>The list paired two by two: the first with the second, the third with the fourth.\<close>

fun consecutive_pairs :: "'a list \<Rightarrow> ('a \<times> 'a) list" where
  "consecutive_pairs (a # b # xs) = (a, b) # consecutive_pairs xs"
| "consecutive_pairs xs = []"

text \<open>A matching without the order of its pairs and the order inside a pair.\<close>

definition pair_sets :: "('a \<times> 'a) list \<Rightarrow> 'a set set" where
  "pair_sets m = (\<lambda>(a, b). {a, b}) ` set m"

text \<open>A perfect matching of \<open>S\<close>: disjoint two-element sets that cover \<open>S\<close>.\<close>

definition perfect_matching :: "'a set set \<Rightarrow> 'a set \<Rightarrow> bool" where
  "perfect_matching M S \<longleftrightarrow>
     (\<forall>e \<in> M. card e = 2) \<and> \<Union>M = S \<and> (\<forall>e \<in> M. \<forall>f \<in> M. e \<noteq> f \<longrightarrow> e \<inter> f = {})"

section \<open>all_pairs computes the specification's enumeration\<close>


definition ranges :: "nat \<Rightarrow> nat list list" where
  "ranges k = map (\<lambda>k. [0..<k]) (rev (xrange_step 1 (2 * k) 2))"

lemma xrange_odd: "xrange_step 1 (2 * k) 2 = map (\<lambda>j. 1 + j * 2) [0..<k]"
  by (simp add: xrange_step_def)

lemma ranges_0: "ranges 0 = []"
  unfolding ranges_def xrange_odd by simp

lemma ranges_Suc: "ranges (Suc k) = [0..<2 * k + 1] # ranges k"
  unfolding ranges_def xrange_odd by (simp add: rev_map mult.commute)

lemma consume_acc:
  "consume tmp choice result =
     (case consume tmp choice [] of Inl e \<Rightarrow> Inl e | Inr r \<Rightarrow> Inr (result @ r))"
proof (induction choice arbitrary: tmp result)
  case Nil
  show ?case by simp
next
  case (Cons index choice)
  show ?case
  proof (cases "pop tmp 0")
    case (Inl e)
    then show ?thesis by simp
  next
    case (Inr p)
    obtain a tmp1 where p: "p = (a, tmp1)" by (cases p)
    show ?thesis
    proof (cases "pop tmp1 index")
      case (Inl e)
      with Inr p show ?thesis by simp
    next
      case (Inr q)
      obtain b tmp2 where q: "q = (b, tmp2)" by (cases q)
      have 1: "consume tmp (index # choice) result = consume tmp2 choice (result @ [(a, b)])"
        using \<open>pop tmp 0 = Inr p\<close> p Inr q by simp
      have 2: "consume tmp (index # choice) [] = consume tmp2 choice [(a, b)]"
        using \<open>pop tmp 0 = Inr p\<close> p Inr q by simp
      show ?thesis
        unfolding 1 2
        by (subst Cons.IH [of tmp2 "result @ [(a, b)]"], subst Cons.IH [of tmp2 "[(a, b)]"])
           (simp split: sum.splits)
    qed
  qed
qed

lemma consume_Cons:
  "i < length xs \<Longrightarrow>
   consume (x # xs) (i # choice) [] =
     (case consume (remove_nth i xs) choice [] of
        Inl e \<Rightarrow> Inl e | Inr r \<Rightarrow> Inr ((x, xs ! i) # r))"
  by (subst consume.simps, simp add: pop_def remove_nth_def, subst consume_acc)
     (auto simp add: pop_def remove_nth_def split: sum.splits)

lemma consume_matchings:
  "length lst = 2 * k \<Longrightarrow>
   map (\<lambda>c. consume lst c []) (itertools_product (ranges k)) = map Inr (spec_matchings lst)"
proof (induction k arbitrary: lst)
  case 0
  then show ?case by (simp add: ranges_0)
next
  case (Suc k)
  then obtain x xs where lst: "lst = x # xs" and len: "length xs = 2 * k + 1"
    by (cases lst) auto
  have step: "map (\<lambda>c. consume lst (i # c) []) (itertools_product (ranges k))
      = map Inr (map (Cons (x, xs ! i)) (spec_matchings (remove_nth i xs)))"
    if i: "i < 2 * k + 1" for i
  proof -
    have l: "length (remove_nth i xs) = 2 * k"
      using i len by (simp add: length_remove_nth)
    have "map (\<lambda>c. consume lst (i # c) []) (itertools_product (ranges k))
        = map (\<lambda>r. case r of Inl e \<Rightarrow> Inl e | Inr r \<Rightarrow> Inr ((x, xs ! i) # r))
            (map (\<lambda>c. consume (remove_nth i xs) c []) (itertools_product (ranges k)))"
      using i len by (simp add: lst consume_Cons del: consume.simps)
    also have "\<dots> = map (\<lambda>r. case r of Inl e \<Rightarrow> Inl e | Inr r \<Rightarrow> Inr ((x, xs ! i) # r))
            (map Inr (spec_matchings (remove_nth i xs)))"
      by (simp only: Suc.IH [OF l])
    finally show ?thesis by simp
  qed
  have "map (\<lambda>c. consume lst c []) (itertools_product (ranges (Suc k)))
      = concat (map (\<lambda>i. map (\<lambda>c. consume lst (i # c) []) (itertools_product (ranges k)))
          [0..<2 * k + 1])"
    by (simp add: ranges_Suc map_concat comp_def)
  also have "\<dots> = concat (map (\<lambda>i. map Inr (map (Cons (x, xs ! i))
          (spec_matchings (remove_nth i xs)))) [0..<2 * k + 1])"
  proof (rule arg_cong [where f = concat], rule map_cong [OF refl])
    fix i assume "i \<in> set [0..<2 * k + 1]"
    then have "i < 2 * k + 1" by auto
    then show "map (\<lambda>c. consume lst (i # c) []) (itertools_product (ranges k))
      = map Inr (map (Cons (x, xs ! i)) (spec_matchings (remove_nth i xs)))"
      by (rule step)
  qed
  also have "\<dots> = map Inr (spec_matchings lst)"
    by (simp add: lst len map_concat comp_def)
  finally show ?case .
qed

lemma yield_all_Inr:
  "map (\<lambda>c. consume lst c []) choices = map Inr results \<Longrightarrow> yield_all lst choices = Inr results"
  by (induction choices arbitrary: results) auto

lemma all_pairs_even:
  assumes "even (length lst)"
  shows "all_pairs lst = Inr (spec_matchings lst)"
proof -
  from assms obtain k where k: "length lst = 2 * k" by (auto elim: evenE)
  have "yield_all lst (itertools_product (ranges k)) = Inr (spec_matchings lst)"
    by (rule yield_all_Inr) (rule consume_matchings [OF k])
  then show ?thesis
    using assms k by (simp add: all_pairs_def choice_indices_def ranges_def Let_def)
qed

lemma all_pairs_odd: "odd (length lst) \<Longrightarrow> all_pairs lst = Inl (ValueError even_items_msg)"
  by (simp add: all_pairs_def Let_def odd_iff_mod_2_eq_one)



lemma sum_list_const: "(\<And>x. x \<in> set xs \<Longrightarrow> f x = (c::nat)) \<Longrightarrow> sum_list (map f xs) = length xs * c"
  by (induction xs) auto

lemma length_spec_matchings:
  "length xs = 2 * k \<Longrightarrow> length (spec_matchings xs) = double_factorial_odd k"
proof (induction k arbitrary: xs)
  case 0
  then show ?case by simp
next
  case (Suc k)
  then obtain x ys where xs: "xs = x # ys" and len: "length ys = 2 * k + 1"
    by (cases xs) auto
  have "length (spec_matchings xs)
      = sum_list (map (\<lambda>i. length (spec_matchings (remove_nth i ys))) [0..<length ys])"
    by (simp add: xs length_concat comp_def)
  also have "\<dots> = length [0..<length ys] * double_factorial_odd k"
  proof (rule sum_list_const)
    fix i assume "i \<in> set [0..<length ys]"
    then have "i < length ys" by simp
    then have "length (remove_nth i ys) = 2 * k"
      using len by (simp add: length_remove_nth)
    then show "length (spec_matchings (remove_nth i ys)) = double_factorial_odd k"
      by (rule Suc.IH)
  qed
  finally show ?case by (simp add: len)
qed

lemma mset_remove_nth:
  "i < length xs \<Longrightarrow> add_mset (xs ! i) (mset (remove_nth i xs)) = mset xs"
proof -
  assume i: "i < length xs"
  have "xs = take i xs @ xs ! i # drop (Suc i) xs"
    using i by (simp add: id_take_nth_drop)
  then have "mset xs = mset (take i xs @ xs ! i # drop (Suc i) xs)" by simp
  then show ?thesis by (simp add: remove_nth_def)
qed

lemma remove_nth_distinct:
  assumes d: "distinct xs" and i: "i < length xs"
  shows "distinct (remove_nth i xs) \<and> set (remove_nth i xs) = set xs - {xs ! i}"
proof -
  define ys where "ys = take i xs"
  define zs where "zs = drop (Suc i) xs"
  have xs: "xs = ys @ xs ! i # zs"
    unfolding ys_def zs_def using i by (rule id_take_nth_drop)
  have "distinct (ys @ xs ! i # zs)"
    using d xs by simp
  then have "distinct (ys @ zs) \<and> set (ys @ zs) = set (ys @ xs ! i # zs) - {xs ! i}"
    by auto
  then show ?thesis
    using xs by (simp add: remove_nth_def ys_def [symmetric] zs_def [symmetric])
qed

lemma spec_matchings_mset:
  "m \<in> set (spec_matchings xs) \<Longrightarrow> mset (flatten_pairs m) = mset xs"
proof (induction xs arbitrary: m rule: spec_matchings.induct)
  case 1
  then show ?case by (simp add: flatten_pairs_def)
next
  case (2 x xs)
  from "2.prems" obtain i m' where i: "i < length xs"
    and m': "m' \<in> set (spec_matchings (remove_nth i xs))" and m: "m = (x, xs ! i) # m'"
    by auto
  have "mset (flatten_pairs m') = mset (remove_nth i xs)"
    using "2.IH" [of i m'] i m' by simp
  then have "mset (flatten_pairs m) = add_mset x (add_mset (xs ! i) (mset (remove_nth i xs)))"
    by (simp add: m flatten_pairs_def)
  then show ?case by (simp add: mset_remove_nth [OF i])
qed

lemma spec_matchings_hd:
  "even (length xs) \<Longrightarrow> spec_matchings xs \<noteq> [] \<and> hd (spec_matchings xs) = consecutive_pairs xs"
proof (induction xs rule: consecutive_pairs.induct)
  case (1 a b xs)
  then have IH: "spec_matchings xs \<noteq> []" "hd (spec_matchings xs) = consecutive_pairs xs"
    by simp_all
  have u: "[0..<length (b # xs)] = 0 # [Suc 0..<length (b # xs)]"
    by (rule upt_conv_Cons) simp
  have r: "remove_nth 0 (b # xs) = xs"
    by (simp add: remove_nth_def)
  define F where "F = (\<lambda>i. map (Cons (a, (b # xs) ! i)) (spec_matchings (remove_nth i (b # xs))))"
  have "spec_matchings (a # b # xs) = concat (map F [0..<length (b # xs)])"
    unfolding F_def by (rule spec_matchings.simps(2))
  also have "\<dots> = F 0 @ concat (map F [Suc 0..<length (b # xs)])"
    by (simp only: u list.map concat.simps)
  also have "F 0 = map (Cons (a, b)) (spec_matchings xs)"
    by (simp add: F_def r)
  finally have "spec_matchings (a # b # xs) =
      map (Cons (a, b)) (spec_matchings xs) @ concat (map F [Suc 0..<length (b # xs)])" .
  then show ?case using IH by (simp add: hd_append hd_map del: spec_matchings.simps)
qed simp_all



lemma Union_pair_sets: "\<Union>(pair_sets m) = set (flatten_pairs m)"
  by (induction m) (auto simp: pair_sets_def flatten_pairs_def)

lemma pair_sets_Cons: "pair_sets ((a, b) # m) = insert {a, b} (pair_sets m)"
  by (simp add: pair_sets_def)

lemma spec_matchings_Union:
  "m \<in> set (spec_matchings xs) \<Longrightarrow> \<Union>(pair_sets m) = set xs"
  using spec_matchings_mset [of m xs] by (metis Union_pair_sets set_mset_mset)

lemma spec_matchings_ConsE:
  assumes "m \<in> set (spec_matchings (x # xs))"
  obtains i m' where "i < length xs" "m' \<in> set (spec_matchings (remove_nth i xs))"
    "m = (x, xs ! i) # m'"
  using assms by auto

lemma spec_matchings_ConsI:
  "i < length xs \<Longrightarrow> m' \<in> set (spec_matchings (remove_nth i xs)) \<Longrightarrow>
   (x, xs ! i) # m' \<in> set (spec_matchings (x # xs))"
  by auto

lemma doubleton_eq_left: "{x, a} = {x, b} \<Longrightarrow> a = b"
  by (metis doubleton_eq_iff)

lemma spec_matchings_inj:
  "distinct xs \<Longrightarrow> m1 \<in> set (spec_matchings xs) \<Longrightarrow> m2 \<in> set (spec_matchings xs) \<Longrightarrow>
   pair_sets m1 = pair_sets m2 \<Longrightarrow> m1 = m2"
proof (induction xs arbitrary: m1 m2 rule: spec_matchings.induct)
  case 1
  then show ?case by simp
next
  case (2 x xs)
  from "2.prems"(2) obtain i m1' where i: "i < length xs"
    and m1': "m1' \<in> set (spec_matchings (remove_nth i xs))" and m1: "m1 = (x, xs ! i) # m1'"
    by (rule spec_matchings_ConsE)
  from "2.prems"(3) obtain j m2' where j: "j < length xs"
    and m2': "m2' \<in> set (spec_matchings (remove_nth j xs))" and m2: "m2 = (x, xs ! j) # m2'"
    by (rule spec_matchings_ConsE)
  have d: "distinct xs" and x: "x \<notin> set xs"
    using "2.prems"(1) by simp_all
  have U1: "\<Union>(pair_sets m1') = set xs - {xs ! i}"
    using spec_matchings_Union [OF m1'] remove_nth_distinct [OF d i] by simp
  have U2: "\<Union>(pair_sets m2') = set xs - {xs ! j}"
    using spec_matchings_Union [OF m2'] remove_nth_distinct [OF d j] by simp
  have n1: "{x, xs ! i} \<notin> pair_sets m1'" and n12: "{x, xs ! i} \<notin> pair_sets m2'"
    and n2: "{x, xs ! j} \<notin> pair_sets m2'"
    using U1 U2 x by blast+
  have e: "insert {x, xs ! i} (pair_sets m1') = insert {x, xs ! j} (pair_sets m2')"
    using "2.prems"(4) by (simp add: m1 m2 pair_sets_Cons)
  then have "{x, xs ! i} = {x, xs ! j}"
    using n12 by blast
  then have "xs ! i = xs ! j" by (rule doubleton_eq_left)
  then have ij: "i = j"
    using d i j by (simp add: nth_eq_iff_index_eq)
  have ps: "pair_sets m1' = pair_sets m2'"
    using e n1 n2 ij by (metis insert_ident)
  have dr: "distinct (remove_nth i xs)"
    using remove_nth_distinct [OF d i] by simp
  have iset: "i \<in> set [0..<length xs]"
    using i by simp
  have m2'': "m2' \<in> set (spec_matchings (remove_nth i xs))"
    using m2' ij by simp
  have "m1' = m2'"
    by (rule "2.IH" [OF iset dr m1' m2'' ps])
  then show ?case by (simp add: m1 m2 ij)
qed

lemma distinct_concat_map:
  "distinct is \<Longrightarrow> (\<And>i. i \<in> set is \<Longrightarrow> distinct (f i)) \<Longrightarrow>
   (\<And>i j. i \<in> set is \<Longrightarrow> j \<in> set is \<Longrightarrow> i \<noteq> j \<Longrightarrow> set (f i) \<inter> set (f j) = {}) \<Longrightarrow>
   distinct (concat (map f is))"
proof (induction "is")
  case Nil
  then show ?case by simp
next
  case (Cons i "is")
  have "distinct (concat (map f is))"
    using Cons by simp
  moreover have "distinct (f i)"
    using Cons.prems(2) by simp
  moreover have "set (f i) \<inter> set (f j) = {}" if "j \<in> set is" for j
  proof -
    have "i \<noteq> j" using Cons.prems(1) that by auto
    then show ?thesis using Cons.prems(3) [of i j] that by simp
  qed
  ultimately show ?case by auto
qed

lemma spec_matchings_distinct:
  "distinct xs \<Longrightarrow> distinct (spec_matchings xs)"
proof (induction xs rule: spec_matchings.induct)
  case 1
  then show ?case by simp
next
  case (2 x xs)
  have d: "distinct xs" using "2.prems" by simp
  define F where "F = (\<lambda>i. map (Cons (x, xs ! i)) (spec_matchings (remove_nth i xs)))"
  have "distinct (concat (map F [0..<length xs]))"
  proof (rule distinct_concat_map)
    show "distinct [0..<length xs]" by simp
  next
    fix i assume "i \<in> set [0..<length xs]"
    then have i: "i < length xs" by simp
    then have "distinct (spec_matchings (remove_nth i xs))"
      using "2.IH" [of i] remove_nth_distinct [OF d i] by simp
    then show "distinct (F i)"
      by (simp add: F_def distinct_map)
  next
    fix i j assume "i \<in> set [0..<length xs]" "j \<in> set [0..<length xs]" "i \<noteq> j"
    then have "xs ! i \<noteq> xs ! j"
      using d by (simp add: nth_eq_iff_index_eq)
    then show "set (F i) \<inter> set (F j) = {}"
      by (auto simp: F_def)
  qed
  then show ?case by (simp add: F_def)
qed

lemma spec_matchings_distinct_sets:
  "distinct xs \<Longrightarrow> distinct (map pair_sets (spec_matchings xs))"
  by (simp add: distinct_map spec_matchings_distinct inj_on_def) (blast intro: spec_matchings_inj)

lemma spec_matchings_complete:
  "distinct xs \<Longrightarrow> perfect_matching M (set xs) \<Longrightarrow>
   \<exists>m \<in> set (spec_matchings xs). pair_sets m = M"
proof (induction xs arbitrary: M rule: spec_matchings.induct)
  case 1
  then have "\<forall>e \<in> M. card e = 2 \<and> e = {}"
    by (auto simp: perfect_matching_def)
  then have "M = {}"
    by fastforce
  then show ?case by (simp add: pair_sets_def)
next
  case (2 x xs)
  have d: "distinct xs" and x: "x \<notin> set xs"
    using "2.prems"(1) by simp_all
  have two: "\<forall>e \<in> M. card e = 2"
    and cover: "\<Union>M = insert x (set xs)"
    and disj: "\<forall>e \<in> M. \<forall>f \<in> M. e \<noteq> f \<longrightarrow> e \<inter> f = {}"
    using "2.prems"(2) by (simp_all add: perfect_matching_def)
  from cover obtain e where e: "e \<in> M" "x \<in> e" by blast
  then have "card e = 2" using two by simp
  then obtain a b where "e = {a, b}" "a \<noteq> b"
    by (auto simp: card_2_iff)
  with e have "\<exists>y. y \<noteq> x \<and> e = {x, y}"
    by (cases "x = a") auto
  then obtain y where y: "y \<noteq> x" "e = {x, y}"
    by blast
  have "y \<in> set xs"
    using e y cover by blast
  then obtain i where i: "i < length xs" "xs ! i = y"
    by (auto simp: in_set_conv_nth)
  define M' where "M' = M - {e}"
  have M: "M = insert e M'"
    using e by (auto simp: M'_def)
  have e_disj: "\<And>f. f \<in> M' \<Longrightarrow> e \<inter> f = {}"
    using disj e by (auto simp: M'_def)
  have "\<Union>M' = \<Union>M - e"
    using e_disj M by blast
  then have U: "\<Union>M' = set (remove_nth i xs)"
    using cover y x remove_nth_distinct [OF d i(1)] i(2) by auto
  have pm: "perfect_matching M' (set (remove_nth i xs))"
    using two disj U by (simp add: perfect_matching_def M'_def)
  have "distinct (remove_nth i xs)"
    using remove_nth_distinct [OF d i(1)] by simp
  then obtain m' where m': "m' \<in> set (spec_matchings (remove_nth i xs))" "pair_sets m' = M'"
    using "2.IH" [of i M'] i(1) pm by auto
  have "(x, xs ! i) # m' \<in> set (spec_matchings (x # xs))"
    using i(1) m'(1) by (rule spec_matchings_ConsI)
  moreover have "pair_sets ((x, xs ! i) # m') = M"
    by (simp add: pair_sets_Cons m'(2) i(2) M y(2))
  ultimately show ?case by blast
qed


lemma perfect_matching_flatten:
  "distinct (flatten_pairs m) \<Longrightarrow> perfect_matching (pair_sets m) (set (flatten_pairs m))"
proof (induction m)
  case Nil
  show ?case by (simp add: perfect_matching_def pair_sets_def flatten_pairs_def)
next
  case (Cons p m)
  obtain a b where p: "p = (a, b)" by (cases p)
  have f: "flatten_pairs (p # m) = a # b # flatten_pairs m"
    by (simp add: flatten_pairs_def p)
  have ab: "a \<noteq> b" "a \<notin> set (flatten_pairs m)" "b \<notin> set (flatten_pairs m)"
    and d: "distinct (flatten_pairs m)"
    using Cons.prems by (simp_all add: f)
  have IH: "perfect_matching (pair_sets m) (set (flatten_pairs m))"
    using Cons.IH d by simp
  have U: "\<Union>(pair_sets m) = set (flatten_pairs m)"
    by (rule Union_pair_sets)
  have disj: "{a, b} \<inter> g = {}" if "g \<in> pair_sets m" for g
    using that U ab by blast
  have c: "card {a, b} = 2"
    using ab by simp
  have 1: "\<forall>e \<in> insert {a, b} (pair_sets m). card e = 2"
    using IH c by (simp add: perfect_matching_def)
  have 2: "\<Union>(insert {a, b} (pair_sets m)) = set (a # b # flatten_pairs m)"
    using U by auto
  have 3: "e \<inter> g = {}"
    if "e \<in> insert {a, b} (pair_sets m)" "g \<in> insert {a, b} (pair_sets m)" "e \<noteq> g" for e g
  proof (cases "e = {a, b}")
    case True
    then have "g \<in> pair_sets m" using that by auto
    then show ?thesis using disj True by simp
  next
    case False
    then have e: "e \<in> pair_sets m" using that by simp
    show ?thesis
    proof (cases "g = {a, b}")
      case True
      then show ?thesis using disj [OF e] by blast
    next
      case False
      then have "g \<in> pair_sets m" using that by simp
      then show ?thesis
        using IH e that(3) by (simp add: perfect_matching_def)
    qed
  qed
  have "perfect_matching (insert {a, b} (pair_sets m)) (set (a # b # flatten_pairs m))"
    unfolding perfect_matching_def
  proof (intro conjI ballI impI)
    fix e assume "e \<in> insert {a, b} (pair_sets m)"
    then show "card e = 2" using 1 by blast
  next
    show "\<Union>(insert {a, b} (pair_sets m)) = set (a # b # flatten_pairs m)" by (rule 2)
  next
    fix e g
    assume "e \<in> insert {a, b} (pair_sets m)" "g \<in> insert {a, b} (pair_sets m)" "e \<noteq> g"
    then show "e \<inter> g = {}" by (rule 3)
  qed
  then show ?case
    by (simp only: f pair_sets_Cons [symmetric] p [symmetric])
qed

lemma spec_matchings_perfect:
  assumes "distinct xs" "m \<in> set (spec_matchings xs)"
  shows "perfect_matching (pair_sets m) (set xs)"
proof -
  have e: "mset (flatten_pairs m) = mset xs"
    using assms(2) by (rule spec_matchings_mset)
  then have "distinct (flatten_pairs m)"
    using assms(1) by (metis mset_eq_imp_distinct_iff)
  then have "perfect_matching (pair_sets m) (set (flatten_pairs m))"
    by (rule perfect_matching_flatten)
  moreover have "set (flatten_pairs m) = set xs"
    using e by (metis set_mset_mset)
  ultimately show ?thesis by simp
qed

section \<open>Claims on all_pairs\<close>

text \<open>
  C10. For every input list, \<open>all_pairs\<close> raises an error if and only if the length of
  the list is odd, and the error is then the \<open>ValueError\<close> of its own check; on every
  list of even length it raises nothing and yields at least one item, and every item
  it yields is a matching of the list: its pairs hold the items of the list, each as
  often as the list does; on the empty list it yields exactly one matching, the empty
  one.
\<close>

theorem all_pairs_raises_iff_odd:
  "((\<exists>e. all_pairs lst = Inl e) \<longleftrightarrow> odd (length lst)) \<and>
   (\<forall>e. all_pairs lst = Inl e \<longrightarrow> e = ValueError even_items_msg) \<and>
   (even (length lst) \<longrightarrow>
      (\<exists>ms. all_pairs lst = Inr ms \<and> ms \<noteq> [] \<and>
            (\<forall>m \<in> set ms. mset (flatten_pairs m) = mset lst \<and>
                           2 * length m = length lst))) \<and>
   all_pairs ([] :: 'a list) = Inr [[]]"
proof (cases "even (length lst)")
  case True
  have "all_pairs lst = Inr (spec_matchings lst)"
    using True by (rule all_pairs_even)
  moreover have "spec_matchings lst \<noteq> []"
    using spec_matchings_hd [OF True] by simp
  moreover have "mset (flatten_pairs m) = mset lst \<and> 2 * length m = length lst"
    if "m \<in> set (spec_matchings lst)" for m
  proof -
    have e: "mset (flatten_pairs m) = mset lst"
      using that by (rule spec_matchings_mset)
    have "length (flatten_pairs m) = 2 * length m"
      by (induction m) (auto simp: flatten_pairs_def)
    moreover have "length (flatten_pairs m) = length lst"
      using e by (rule mset_eq_length)
    ultimately show ?thesis using e by simp
  qed
  moreover have "all_pairs ([] :: 'a list) = Inr [[]]"
    using all_pairs_even [of "[] :: 'a list"] by simp
  ultimately show ?thesis using True by simp
next
  case False
  have "all_pairs lst = Inl (ValueError even_items_msg)"
    using False by (rule all_pairs_odd)
  moreover have "all_pairs ([] :: 'a list) = Inr [[]]"
    using all_pairs_even [of "[] :: 'a list"] by simp
  ultimately show ?thesis using False by simp
qed

theorem all_pairs_raises_iff_odd_witness:
  "all_pairs [1, 2, 3 :: int] = Inl (ValueError even_items_msg) \<and>
   (\<exists>ms. all_pairs [1, 2 :: int] = Inr ms \<and> ms \<noteq> [] \<and>
         (\<forall>m \<in> set ms. mset (flatten_pairs m) = mset [1, 2] \<and> 2 * length m = 2))"
proof -
  have ev: "even (length [1, 2 :: int])" and l: "length [1, 2 :: int] = 2"
    by simp_all
  have "odd (length [1, 2, 3 :: int])"
    by simp
  then have "\<exists>e. all_pairs [1, 2, 3 :: int] = Inl e"
    using all_pairs_raises_iff_odd [of "[1, 2, 3 :: int]"] by blast
  then have "all_pairs [1, 2, 3 :: int] = Inl (ValueError even_items_msg)"
    using all_pairs_raises_iff_odd [of "[1, 2, 3 :: int]"] by blast
  moreover have "\<exists>ms. all_pairs [1, 2 :: int] = Inr ms \<and> ms \<noteq> [] \<and>
      (\<forall>m \<in> set ms. mset (flatten_pairs m) = mset [1, 2] \<and> 2 * length m = length [1, 2 :: int])"
    using all_pairs_raises_iff_odd [of "[1, 2 :: int]"] ev by blast
  then have "\<exists>ms. all_pairs [1, 2 :: int] = Inr ms \<and> ms \<noteq> [] \<and>
      (\<forall>m \<in> set ms. mset (flatten_pairs m) = mset [1, 2] \<and> 2 * length m = 2)"
    unfolding l .
  ultimately show ?thesis by blast
qed

text \<open>
  C3. For every list of even length \<open>2k\<close> of distinct ids, \<open>all_pairs\<close> yields exactly
  \<open>(2k - 1)!!\<close> matchings; each is a partition of the ids into disjoint pairs that
  covers every id exactly once; no matching is yielded twice, whatever the order of its
  pairs, and every perfect matching of the ids is yielded; the first matching pairs
  consecutive elements of the list. The sequence is the one the specification words:
  the first remaining id with each other remaining id in turn, then the rest.
\<close>

theorem all_pairs_enumerates_matchings:
  assumes "even (length lst)" and "distinct lst"
  shows "\<exists>ms. all_pairs lst = Inr ms \<and> ms = spec_matchings lst \<and>
           length ms = double_factorial_odd (length lst div 2) \<and>
           (\<forall>m \<in> set ms. perfect_matching (pair_sets m) (set lst) \<and>
                          mset (flatten_pairs m) = mset lst) \<and>
           distinct (map pair_sets ms) \<and>
           (\<forall>M. perfect_matching M (set lst) \<longrightarrow> M \<in> pair_sets ` set ms) \<and>
           hd ms = consecutive_pairs lst"
proof -
  have "all_pairs lst = Inr (spec_matchings lst)"
    using assms(1) by (rule all_pairs_even)
  moreover have "length (spec_matchings lst) = double_factorial_odd (length lst div 2)"
    using assms(1) by (intro length_spec_matchings) auto
  moreover have "\<forall>m \<in> set (spec_matchings lst).
      perfect_matching (pair_sets m) (set lst) \<and> mset (flatten_pairs m) = mset lst"
    using assms(2) by (simp add: spec_matchings_perfect spec_matchings_mset)
  moreover have "distinct (map pair_sets (spec_matchings lst))"
    using assms(2) by (rule spec_matchings_distinct_sets)
  moreover have "\<forall>M. perfect_matching M (set lst) \<longrightarrow> M \<in> pair_sets ` set (spec_matchings lst)"
    using spec_matchings_complete [OF assms(2)] by blast
  moreover have "hd (spec_matchings lst) = consecutive_pairs lst"
    using spec_matchings_hd [OF assms(1)] by simp
  ultimately show ?thesis by simp
qed

theorem all_pairs_enumerates_matchings_witness:
  "\<exists>ms. all_pairs [1, 2, 3, 4 :: int] = Inr ms \<and> length ms = 3 \<and>
        hd ms = [(1, 2), (3, 4)] \<and> {{1, 3}, {2, 4}} \<in> pair_sets ` set ms"
proof -
  have e: "even (length [1, 2, 3, 4 :: int])" and d: "distinct [1, 2, 3, 4 :: int]"
    by simp_all
  have pm: "perfect_matching {{1, 3}, {2, 4 :: int}} (set [1, 2, 3, 4])"
    by (auto simp: perfect_matching_def)
  have n: "double_factorial_odd (length [1, 2, 3, 4 :: int] div 2) = 3"
    by code_simp
  from all_pairs_enumerates_matchings [OF e d] obtain ms where
    ms: "all_pairs [1, 2, 3, 4 :: int] = Inr ms"
      "length ms = double_factorial_odd (length [1, 2, 3, 4 :: int] div 2)"
      "\<forall>M. perfect_matching M (set [1, 2, 3, 4 :: int]) \<longrightarrow> M \<in> pair_sets ` set ms"
      "hd ms = consecutive_pairs [1, 2, 3, 4 :: int]"
    by blast
  have "{{1, 3}, {2, 4}} \<in> pair_sets ` set ms"
    using ms(3) pm by blast
  then show ?thesis
    using ms(1,2,4) n by simp
qed

section \<open>Byes in reportMatch\<close>

text \<open>\<open>SELECT had_bye FROM players WHERE id=%s\<close>, first row, if there is one.\<close>

definition had_bye_of :: "database \<Rightarrow> int \<Rightarrow> bool option" where
  "had_bye_of db p =
     (case filter (\<lambda>r. row_id r = p) (players db) of
        [] \<Rightarrow> None
      | r # _ \<Rightarrow> Some (row_had_bye r))"

text \<open>The number of bye matches recorded for a player.\<close>

definition bye_count :: "database \<Rightarrow> int \<Rightarrow> nat" where
  "bye_count db p = length (filter (\<lambda>m. m = (p, None)) (matches db))"

text \<open>
  The invariant of the bye bookkeeping: no player has two bye matches, and every row of a
  player with a bye match has \<open>had_bye\<close> set. A database without matches satisfies it.
\<close>

definition bye_inv :: "database \<Rightarrow> bool" where
  "bye_inv db \<longleftrightarrow>
     (\<forall>m \<in> set (matches db). bye_count db (fst m) \<le> 1) \<and>
     (\<forall>m \<in> set (matches db). snd m = None \<longrightarrow>
        (\<forall>r \<in> set (players db). row_id r = fst m \<longrightarrow> row_had_bye r))"

lemma bye_count_zero: "(p, None) \<notin> set (matches db) \<Longrightarrow> bye_count db p = 0"
  by (auto simp: bye_count_def filter_empty_conv)

lemma bye_inv_count: "bye_inv db \<Longrightarrow> bye_count db p \<le> 1"
proof (cases "(p, None) \<in> set (matches db)")
  case True
  assume "bye_inv db"
  then show ?thesis using True by (force simp: bye_inv_def)
next
  case False
  then show ?thesis by (simp add: bye_count_zero)
qed

lemma bye_inv_no_matches: "matches db = [] \<Longrightarrow> bye_inv db"
  by (simp add: bye_inv_def)

lemma had_bye_of_Some:
  "had_bye_of db p = Some b \<Longrightarrow> \<exists>r \<in> set (players db). row_id r = p \<and> row_had_bye r = b"
proof -
  assume a: "had_bye_of db p = Some b"
  then obtain r rs where f: "filter (\<lambda>r. row_id r = p) (players db) = r # rs" and b: "row_had_bye r = b"
    by (auto simp: had_bye_of_def split: list.splits)
  have "r \<in> set (filter (\<lambda>r. row_id r = p) (players db))"
    by (simp add: f)
  then show ?thesis using b by auto
qed

lemma reportMatch_had_bye:
  "had_bye_of db winner = Some True \<Longrightarrow> reportMatch db winner None = Inr ([already_had_bye_msg], db)"
  by (auto simp: had_bye_of_def reportMatch_def split: list.splits)

lemma reportMatch_first_bye:
  "had_bye_of db winner = Some False \<Longrightarrow>
   reportMatch db winner None =
     Inr ([], db\<lparr>players := map (\<lambda>p. if row_id p = winner then p\<lparr>row_had_bye := True\<rparr> else p)
                              (players db),
                 matches := matches db @ [(winner, None)]\<rparr>)"
  by (auto simp: had_bye_of_def reportMatch_def split: list.splits)

lemma reportMatch_unknown:
  "had_bye_of db winner = None \<Longrightarrow> reportMatch db winner None = Inl (TypeError none_item_msg)"
  by (auto simp: had_bye_of_def reportMatch_def split: list.splits)

lemma had_bye_of_marked:
  "had_bye_of db winner = Some b \<Longrightarrow>
   had_bye_of (db\<lparr>players := map (\<lambda>p. if row_id p = winner then p\<lparr>row_had_bye := True\<rparr> else p)
                              (players db),
                 matches := ms\<rparr>) winner = Some True"
proof -
  assume "had_bye_of db winner = Some b"
  then obtain r rs where f: "filter (\<lambda>r. row_id r = winner) (players db) = r # rs"
    by (auto simp: had_bye_of_def split: list.splits)
  have "filter (\<lambda>r. row_id r = winner)
          (map (\<lambda>p. if row_id p = winner then p\<lparr>row_had_bye := True\<rparr> else p) (players db))
      = map (\<lambda>p. p\<lparr>row_had_bye := True\<rparr>) (filter (\<lambda>r. row_id r = winner) (players db))"
    by (induction "players db" arbitrary: db) (auto simp: filter_map comp_def intro: filter_cong)
  then show ?thesis
    by (simp add: had_bye_of_def f)
qed

lemma reportMatch_bye_inv:
  assumes "bye_inv db"
  shows "bye_inv (database_after db (reportMatch db winner loser))"
proof (cases loser)
  case (Some l)
  have "database_after db (reportMatch db winner loser) = db\<lparr>matches := matches db @ [(winner, Some l)]\<rparr>"
    by (simp add: Some reportMatch_def database_after_def)
  moreover have "bye_inv (db\<lparr>matches := matches db @ [(winner, Some l)]\<rparr>)"
    using assms bye_inv_count [OF assms, of winner] by (auto simp: bye_inv_def bye_count_def)
  ultimately show ?thesis by simp
next
  case None
  show ?thesis
  proof (cases "had_bye_of db winner")
    case n: None
    then show ?thesis
      using assms by (simp add: None reportMatch_unknown database_after_def)
  next
    case (Some b)
    show ?thesis
    proof (cases b)
      case True
      then show ?thesis
        using assms Some by (simp add: None reportMatch_had_bye database_after_def)
    next
      case False
      define db' where "db' = db\<lparr>players :=
          map (\<lambda>p. if row_id p = winner then p\<lparr>row_had_bye := True\<rparr> else p) (players db),
          matches := matches db @ [(winner, None)]\<rparr>"
      have after: "database_after db (reportMatch db winner loser) = db'"
        using Some False by (simp add: None reportMatch_first_bye database_after_def db'_def)
      obtain r where r: "r \<in> set (players db)" "row_id r = winner" "\<not> row_had_bye r"
        using had_bye_of_Some [of db winner False] Some False by auto
      have fresh: "(winner, None) \<notin> set (matches db)"
        using assms r by (force simp: bye_inv_def)
      then have zero: "bye_count db winner = 0"
        by (rule bye_count_zero)
      have count: "bye_count db' p = bye_count db p + (if p = winner then 1 else 0)" for p
        by (simp add: bye_count_def db'_def)
      have 1: "bye_count db' (fst m) \<le> 1" if "m \<in> set (matches db')" for m
        using bye_inv_count [OF assms, of "fst m"] zero by (simp add: count)
      have 2: "row_had_bye q" if "m \<in> set (matches db')" "snd m = None" "q \<in> set (players db')"
        "row_id q = fst m" for m q
      proof (cases "fst m = winner")
        case True
        then show ?thesis using that(3,4) by (auto simp: db'_def)
      next
        case False
        then have "m \<in> set (matches db)"
          using that(1) by (auto simp: db'_def)
        then show ?thesis
          using assms that(2,3,4) False by (auto simp: bye_inv_def db'_def)
      qed
      have "bye_inv db'"
        unfolding bye_inv_def using 1 2 by blast
      then show ?thesis by (simp add: after)
    qed
  qed
qed

lemma report_all_bye_inv: "bye_inv db \<Longrightarrow> bye_inv (report_all db calls)"
  by (induction calls arbitrary: db) (simp_all add: reportMatch_bye_inv)

text \<open>
  C9. When \<open>reportMatch\<close> is called without a loser for a player whose \<open>had_bye\<close> is
  already true, it records nothing: the players and the matches are left as they were.
  When the player's \<open>had_bye\<close> is false, it sets it to true and records a bye match, with a
  null loser. Hence, over any series of reports from a database whose byes are
  consistent (one without matches is), each player has at most one bye match.
\<close>

theorem reportMatch_at_most_one_bye:
  "(had_bye_of db winner = Some True \<longrightarrow>
      reportMatch db winner None = Inr ([already_had_bye_msg], db)) \<and>
   (had_bye_of db winner = Some False \<longrightarrow>
      (\<exists>db'. reportMatch db winner None = Inr ([], db') \<and>
             had_bye_of db' winner = Some True \<and>
             players db' = map (\<lambda>p. if row_id p = winner then p\<lparr>row_had_bye := True\<rparr> else p)
                             (players db) \<and>
             matches db' = matches db @ [(winner, None)])) \<and>
   (matches db = [] \<or> bye_inv db \<longrightarrow>
      bye_inv (report_all db calls) \<and> (\<forall>p. bye_count (report_all db calls) p \<le> 1))"
proof (intro conjI impI)
  assume "had_bye_of db winner = Some True"
  then show "reportMatch db winner None = Inr ([already_had_bye_msg], db)"
    by (rule reportMatch_had_bye)
next
  assume a: "had_bye_of db winner = Some False"
  show "\<exists>db'. reportMatch db winner None = Inr ([], db') \<and>
             had_bye_of db' winner = Some True \<and>
             players db' = map (\<lambda>p. if row_id p = winner then p\<lparr>row_had_bye := True\<rparr> else p)
                             (players db) \<and>
             matches db' = matches db @ [(winner, None)]"
    using reportMatch_first_bye [OF a] had_bye_of_marked [OF a] by simp
next
  assume "matches db = [] \<or> bye_inv db"
  then have "bye_inv db"
    using bye_inv_no_matches by blast
  then show "bye_inv (report_all db calls)"
    by (rule report_all_bye_inv)
  then show "\<forall>p. bye_count (report_all db calls) p \<le> 1"
    using bye_inv_count by blast
qed

text \<open>Two registered players, the second one with a bye already taken, and no match.\<close>

definition two_players :: database where
  "two_players =
     \<lparr>players = [\<lparr>row_id = 1, row_name = ''A'', row_had_bye = False\<rparr>,
                 \<lparr>row_id = 2, row_name = ''B'', row_had_bye = True\<rparr>],
      matches = []\<rparr>"

theorem reportMatch_at_most_one_bye_witness:
  "reportMatch two_players 2 None = Inr ([already_had_bye_msg], two_players) \<and>
   (\<exists>db'. reportMatch two_players 1 None = Inr ([], db') \<and> matches db' = [(1, None)]) \<and>
   bye_count (report_all two_players [(1, None), (1, None), (2, None)]) 1 \<le> 1"
proof -
  have t: "had_bye_of two_players 2 = Some True" and f: "had_bye_of two_players 1 = Some False"
    and m: "matches two_players = []"
    by (simp_all add: had_bye_of_def two_players_def)
  have "reportMatch two_players 2 None = Inr ([already_had_bye_msg], two_players)"
    using reportMatch_at_most_one_bye [of two_players 2] t by blast
  moreover have "\<exists>db'. reportMatch two_players 1 None = Inr ([], db') \<and> matches db' = [(1, None)]"
    using reportMatch_at_most_one_bye [of two_players 1] f m by auto
  moreover have "bye_count (report_all two_players [(1, None), (1, None), (2, None)]) 1 \<le> 1"
    using reportMatch_at_most_one_bye [of two_players 1 "[(1, None), (1, None), (2, None)]"] m
    by blast
  ultimately show ?thesis by blast
qed

section \<open>Standings and win groups\<close>

text \<open>The standings row of a player row.\<close>

definition standing_of :: "database \<Rightarrow> player_row \<Rightarrow> standing" where
  "standing_of db p =
     (row_id p, row_name p, wins_of db (row_id p), matches_of db (row_id p))"

text \<open>The columns of a standings row.\<close>

definition standing_id :: "standing \<Rightarrow> int" where
  "standing_id s = fst s"

definition standing_wins :: "standing \<Rightarrow> nat" where
  "standing_wins s = fst (snd (snd s))"

definition standing_matches :: "standing \<Rightarrow> nat" where
  "standing_matches s = snd (snd (snd s))"

text \<open>The ids of the players table: the primary key, when they are distinct.\<close>

definition player_ids :: "database \<Rightarrow> int list" where
  "player_ids db = map row_id (players db)"

text \<open>The win groups \<open>swissPairings\<close> compiles, for the wins of the first standings row.\<close>

definition win_groups_of :: "database \<Rightarrow> int list list" where
  "win_groups_of db =
     map (win_group_query db) [0..<standing_wins (hd (playerStandings db)) + 1]"

text \<open>
  The conditions \<open>swissPairings\<close> tests first: no match played yet, and every player
  with the same number of matches played.
\<close>

definition first_round :: "database \<Rightarrow> bool" where
  "first_round db \<longleftrightarrow> sum_list (map standing_matches (playerStandings db)) = 0"

definition round_complete :: "database \<Rightarrow> bool" where
  "round_complete db \<longleftrightarrow>
     (\<forall>s \<in> set (playerStandings db). \<forall>t \<in> set (playerStandings db).
        standing_matches s = standing_matches t)"

lemma join_single:
  "distinct (map f xs) \<Longrightarrow> x \<in> set xs \<Longrightarrow>
   concat (map (\<lambda>r. if f x = f r then [h r] else []) xs) = [h x]"
proof (induction xs)
  case Nil
  then show ?case by simp
next
  case (Cons y ys)
  show ?case
  proof (cases "x = y")
    case True
    have "concat (map (\<lambda>r. if f x = f r then [h r] else []) ys) = []"
      using Cons.prems(1) True by (auto simp: image_iff)
    then show ?thesis using True by simp
  next
    case False
    then have "x \<in> set ys" using Cons.prems(2) by simp
    moreover have "f y \<notin> f ` set ys"
      using Cons.prems(1) by simp
    then have "f x \<noteq> f y"
      using \<open>x \<in> set ys\<close> by (metis imageI)
    ultimately show ?thesis using Cons by simp
  qed
qed

lemma join_all:
  assumes "distinct (map f xs)"
  shows "concat (map (\<lambda>p. concat (map (\<lambda>r. if f p = f r then [h p r] else []) xs)) xs)
       = map (\<lambda>p. h p p) xs"
proof -
  have "concat (map (\<lambda>r. if f p = f r then [h p r] else []) xs) = [h p p]" if "p \<in> set xs" for p
    using join_single [OF assms that, of "h p"] .
  then have e: "map (\<lambda>p. concat (map (\<lambda>r. if f p = f r then [h p r] else []) xs)) xs
      = map (\<lambda>p. [h p p]) xs"
    by (intro map_cong [OF refl])
  have "concat (map (\<lambda>p. concat (map (\<lambda>r. if f p = f r then [h p r] else []) xs)) xs)
      = concat (map (\<lambda>p. [h p p]) xs)"
    by (simp only: e)
  also have "\<dots> = map (\<lambda>p. h p p) xs"
    by (induction xs) simp_all
  finally show ?thesis .
qed

lemma playerStandings_distinct:
  assumes "distinct (player_ids db)"
  shows "playerStandings db =
     sort_key (\<lambda>s. - int (standing_wins s)) (map (standing_of db) (players db))"
proof -
  have d: "distinct (map row_id (players db))"
    using assms by (simp add: player_ids_def)
  have "concat (map (\<lambda>p. concat (map (\<lambda>r. if row_id p = row_id r
            then [(row_id r, row_name p, wins_of db (row_id r), matches_of db (row_id r))]
            else []) (players db))) (players db))
      = map (\<lambda>p. (row_id p, row_name p, wins_of db (row_id p), matches_of db (row_id p)))
          (players db)"
    by (rule join_all [OF d])
  then show ?thesis
    by (simp add: playerStandings_def num_matches_wins_def comp_def standing_of_def [abs_def]
        standing_wins_def [abs_def] cong: if_cong)
qed

lemma playerStandings_mset:
  "distinct (player_ids db) \<Longrightarrow>
   mset (playerStandings db) = mset (map (standing_of db) (players db))"
  by (simp add: playerStandings_distinct)

lemma playerStandings_ids:
  "distinct (player_ids db) \<Longrightarrow>
   mset (map standing_id (playerStandings db)) = mset (player_ids db)"
proof -
  assume d: "distinct (player_ids db)"
  have "mset (map standing_id (playerStandings db))
      = image_mset standing_id (mset (map (standing_of db) (players db)))"
    using playerStandings_mset [OF d] by (metis mset_map)
  also have "\<dots> = mset (player_ids db)"
    by (simp add: player_ids_def standing_of_def standing_id_def comp_def multiset.map_comp)
  finally show ?thesis .
qed

lemma playerStandings_length:
  "distinct (player_ids db) \<Longrightarrow> length (playerStandings db) = length (players db)"
  by (simp add: playerStandings_distinct)

lemma sort_key_hd_least:
  assumes "sort_key f xs = r # rs"
  shows "r \<in> set xs \<and> (\<forall>x \<in> set xs. f r \<le> f x)"
proof -
  have "sorted (map f (r # rs))"
    using sorted_sort_key [of f xs] assms by simp
  then have "\<forall>x \<in> set (r # rs). f r \<le> f x"
    by auto
  moreover have "set (r # rs) = set xs"
    using assms by (metis set_sort)
  ultimately show ?thesis by auto
qed

lemma playerStandings_hd_wins:
  assumes "distinct (player_ids db)" and "p \<in> set (players db)"
  shows "wins_of db (row_id p) \<le> standing_wins (hd (playerStandings db))"
proof -
  let ?xs = "map (standing_of db) (players db)"
  have ps: "playerStandings db = sort_key (\<lambda>s. - int (standing_wins s)) ?xs"
    using assms(1) by (rule playerStandings_distinct)
  have "?xs \<noteq> []" using assms(2) by auto
  then have "playerStandings db \<noteq> []"
    unfolding ps by (metis length_sort list.size(3) length_0_conv)
  then obtain r rs where rs: "sort_key (\<lambda>s. - int (standing_wins s)) ?xs = r # rs"
    unfolding ps by (cases "sort_key (\<lambda>s. - int (standing_wins s)) ?xs") auto
  have "\<forall>x \<in> set ?xs. - int (standing_wins r) \<le> - int (standing_wins x)"
    using sort_key_hd_least [OF rs] by simp
  moreover have "standing_of db p \<in> set ?xs"
    using assms(2) by simp
  ultimately have "standing_wins (standing_of db p) \<le> standing_wins r"
    by fastforce
  moreover have "hd (playerStandings db) = r"
    by (simp only: ps rs list.sel)
  ultimately show ?thesis
    by (simp add: standing_of_def standing_wins_def)
qed

section \<open>The branches of swissPairings\<close>

lemma fold_max_min_eq:
  "fold max ms (m :: nat) = fold min ms m \<longleftrightarrow> (\<forall>x \<in> set (m # ms). \<forall>y \<in> set (m # ms). x = y)"
proof -
  let ?S = "set (m # ms)"
  have mx: "fold max ms m = Max ?S" and mn: "fold min ms m = Min ?S"
    by (simp_all only: Max.set_eq_fold Min.set_eq_fold)
  have fin: "finite ?S" and ne: "?S \<noteq> {}" by simp_all
  show ?thesis
  proof
    assume e: "fold max ms m = fold min ms m"
    have "x = Max ?S" if "x \<in> ?S" for x
    proof -
      have "Min ?S \<le> x" "x \<le> Max ?S"
        by (rule Min_le [OF fin that], rule Max_ge [OF fin that])
      then show ?thesis using e mx mn by linarith
    qed
    then show "\<forall>x \<in> ?S. \<forall>y \<in> ?S. x = y" by metis
  next
    assume a: "\<forall>x \<in> ?S. \<forall>y \<in> ?S. x = y"
    have "Max ?S \<in> ?S" "Min ?S \<in> ?S"
      by (rule Max_in [OF fin ne], rule Min_in [OF fin ne])
    then have "Max ?S = Min ?S" using a by blast
    then show "fold max ms m = fold min ms m" using mx mn by simp
  qed
qed

lemma not_first_round_nonempty: "\<not> first_round db \<Longrightarrow> playerStandings db \<noteq> []"
  by (auto simp: first_round_def)

lemma swissPairings_first_round:
  "first_round db \<Longrightarrow>
   swissPairings shuffle db =
     (case random_pairing shuffle (playerStandings db) [] of
        Inl e \<Rightarrow> Inl e
      | Inr pairings \<Rightarrow> Inr ([], Some pairings))"
  by (simp add: swissPairings_def first_round_def standing_matches_def [abs_def] Let_def)

lemma swissPairings_incomplete:
  assumes "\<not> first_round db" and "\<not> round_complete db"
  shows "swissPairings shuffle db = Inr IncompleteRound"
proof -
  obtain s ss where st: "playerStandings db = s # ss"
    using not_first_round_nonempty [OF assms(1)] by (cases "playerStandings db") auto
  have "\<not> (\<forall>x \<in> set (map standing_matches (playerStandings db)).
          \<forall>y \<in> set (map standing_matches (playerStandings db)). x = y)"
    using assms(2) unfolding round_complete_def set_map by blast
  then have "\<not> (\<forall>x \<in> set (map standing_matches (s # ss)). \<forall>y \<in> set (map standing_matches (s # ss)). x = y)"
    unfolding st .
  then have "fold max (map standing_matches ss) (standing_matches s)
      \<noteq> fold min (map standing_matches ss) (standing_matches s)"
    using fold_max_min_eq [of "map standing_matches ss" "standing_matches s"] by simp
  then have ne: "fold max (map (\<lambda>player. snd (snd (snd player))) ss) (snd (snd (snd s)))
      \<noteq> fold min (map (\<lambda>player. snd (snd (snd player))) ss) (snd (snd (snd s)))"
    by (simp add: standing_matches_def [abs_def])
  have ns: "sum_list (map (\<lambda>player. snd (snd (snd player))) (playerStandings db)) \<noteq> 0"
    using assms(1) by (simp add: first_round_def standing_matches_def [abs_def])
  show ?thesis
    unfolding swissPairings_def Let_def
    by (simp only: ns if_False) (simp add: st ne IncompleteRound_def)
qed

lemma swissPairings_later_round:
  assumes "\<not> first_round db" and "round_complete db"
  shows "swissPairings shuffle db =
     (if length (last (win_groups_of db)) = 1 then Inr TournamentDecided
      else
        (case (if length (playerStandings db) mod 2 \<noteq> 0
               then give_bye db (win_groups_of db) []
               else Inr (win_groups_of db, [])) of
           Inl e \<Rightarrow> Inl e
         | Inr (win_groups1, pairings1) \<Rightarrow>
             (case evenness_pass win_groups1 of
                Inl e \<Rightarrow> Inl e
              | Inr win_groups2 \<Rightarrow>
                  (case resolve db win_groups2 of
                     Inl e \<Rightarrow> Inl e
                   | Inr None \<Rightarrow> Inr UnresolvablePairing
                   | Inr (Some pairings_res) \<Rightarrow> Inr ([], Some (pairings1 @ pairings_res))))))"
proof -
  obtain s ss where st: "playerStandings db = s # ss"
    using not_first_round_nonempty [OF assms(1)] by (cases "playerStandings db") auto
  have "\<forall>x \<in> set (map standing_matches (playerStandings db)).
          \<forall>y \<in> set (map standing_matches (playerStandings db)). x = y"
    using assms(2) unfolding round_complete_def set_map by blast
  then have "\<forall>x \<in> set (standing_matches s # map standing_matches ss).
               \<forall>y \<in> set (standing_matches s # map standing_matches ss). x = y"
    unfolding st list.map .
  then have "fold max (map standing_matches ss) (standing_matches s)
      = fold min (map standing_matches ss) (standing_matches s)"
    by (rule fold_max_min_eq [THEN iffD2])
  then have eq: "fold max (map (\<lambda>player. snd (snd (snd player))) ss) (snd (snd (snd s)))
      = fold min (map (\<lambda>player. snd (snd (snd player))) ss) (snd (snd (snd s)))"
    by (simp add: standing_matches_def [abs_def])
  have ns: "sum_list (map (\<lambda>player. snd (snd (snd player))) (playerStandings db)) \<noteq> 0"
    using assms(1) by (simp add: first_round_def standing_matches_def [abs_def])
  have hd: "hd (playerStandings db) = s"
    by (simp add: st)
  show ?thesis
    unfolding swissPairings_def Let_def win_groups_of_def hd standing_wins_def
      TournamentDecided_def UnresolvablePairing_def
    by (simp only: ns if_False)
       (simp only: st list.map list.case eq refl if_False not_False_eq_True simp_thms)
qed

section \<open>The decided tournament\<close>

text \<open>The ids of the players no other player has more wins than, in table order.\<close>

definition highest_win_bucket :: "database \<Rightarrow> int list" where
  "highest_win_bucket db =
     map row_id
       (filter (\<lambda>r. \<forall>q \<in> set (players db). wins_of db (row_id q) \<le> wins_of db (row_id r))
          (players db))"

lemma win_group_query_players:
  "win_group_query db n = map row_id (filter (\<lambda>r. wins_of db (row_id r) = n) (players db))"
  by (simp add: win_group_query_def num_wins_def filter_map comp_def)

lemma last_win_groups_of:
  "last (win_groups_of db) = win_group_query db (standing_wins (hd (playerStandings db)))"
  by (simp add: win_groups_of_def)

lemma playerStandings_hd_attained:
  assumes "distinct (player_ids db)" and "players db \<noteq> []"
  shows "\<exists>r \<in> set (players db). standing_wins (hd (playerStandings db)) = wins_of db (row_id r)"
proof -
  have "playerStandings db \<noteq> []"
    using playerStandings_length [OF assms(1)] assms(2) by auto
  then have "hd (playerStandings db) \<in> set (playerStandings db)"
    by simp
  also have "set (playerStandings db) = set (map (standing_of db) (players db))"
    using playerStandings_mset [OF assms(1)] by (metis set_mset_mset)
  finally show ?thesis
    by (auto simp: standing_of_def standing_wins_def)
qed

lemma last_win_groups_highest:
  assumes "distinct (player_ids db)" and "players db \<noteq> []"
  shows "last (win_groups_of db) = highest_win_bucket db"
proof -
  let ?n = "standing_wins (hd (playerStandings db))"
  obtain r where r: "r \<in> set (players db)" "?n = wins_of db (row_id r)"
    using playerStandings_hd_attained [OF assms] by blast
  have le: "wins_of db (row_id q) \<le> ?n" if "q \<in> set (players db)" for q
    using playerStandings_hd_wins [OF assms(1) that] .
  have "(wins_of db (row_id p) = ?n) =
      (\<forall>q \<in> set (players db). wins_of db (row_id q) \<le> wins_of db (row_id p))"
    if "p \<in> set (players db)" for p
  proof
    assume "wins_of db (row_id p) = ?n"
    then show "\<forall>q \<in> set (players db). wins_of db (row_id q) \<le> wins_of db (row_id p)"
      using le by simp
  next
    assume "\<forall>q \<in> set (players db). wins_of db (row_id q) \<le> wins_of db (row_id p)"
    then have "?n \<le> wins_of db (row_id p)"
      using r by simp
    then show "wins_of db (row_id p) = ?n"
      using le [OF that] by simp
  qed
  then have "filter (\<lambda>p. wins_of db (row_id p) = ?n) (players db) =
      filter (\<lambda>p. \<forall>q \<in> set (players db). wins_of db (row_id q) \<le> wins_of db (row_id p))
        (players db)"
    by (intro filter_cong [OF refl])
  then show ?thesis
    by (simp only: last_win_groups_of win_group_query_players highest_win_bucket_def)
qed

lemma not_first_round_players: "\<not> first_round db \<Longrightarrow> players db \<noteq> []"
  by (auto simp: first_round_def playerStandings_def)

text \<open>Four players and one reported match: the first round is not complete.\<close>

definition one_match_played :: database where
  "one_match_played =
     \<lparr>players = [\<lparr>row_id = 1, row_name = ''A'', row_had_bye = False\<rparr>,
                 \<lparr>row_id = 2, row_name = ''B'', row_had_bye = False\<rparr>,
                 \<lparr>row_id = 3, row_name = ''C'', row_had_bye = False\<rparr>,
                 \<lparr>row_id = 4, row_name = ''D'', row_had_bye = False\<rparr>],
      matches = [(1, Some 2)]\<rparr>"

text \<open>
  The decided scenario of the specification: after three rounds the standings are
  \<open>(1, A, 3, 3), (2, B, 1, 3), (3, C, 1, 3), (4, D, 1, 3)\<close>.
\<close>

definition decided_scenario :: database where
  "decided_scenario =
     \<lparr>players = [\<lparr>row_id = 1, row_name = ''A'', row_had_bye = False\<rparr>,
                 \<lparr>row_id = 2, row_name = ''B'', row_had_bye = False\<rparr>,
                 \<lparr>row_id = 3, row_name = ''C'', row_had_bye = False\<rparr>,
                 \<lparr>row_id = 4, row_name = ''D'', row_had_bye = False\<rparr>],
      matches = [(1, Some 2), (3, Some 4), (1, Some 3), (4, Some 2), (1, Some 4), (2, Some 3)]\<rparr>"

text \<open>
  C7, as the claim states it, fails: with one match reported among four players the
  input is past the first round and its highest-win bucket holds exactly one id, yet
  \<open>swissPairings\<close> tests the completeness of the round first and reports the
  incomplete round, not the decided tournament.
\<close>

theorem swissPairings_decided_counterexample:
  "\<not> first_round one_match_played \<and>
   highest_win_bucket one_match_played = [1] \<and>
   swissPairings id one_match_played = Inr IncompleteRound \<and>
   swissPairings id one_match_played \<noteq> Inr TournamentDecided"
  by code_simp

text \<open>
  C7, amended. For every input past the first round in which all players have played the
  same number of matches and whose highest-win bucket holds exactly one id,
  \<open>swissPairings\<close> returns the terminal condition \<open>TournamentDecided\<close> and no pairings.
\<close>

theorem swissPairings_decided:
  assumes "distinct (player_ids db)" and "\<not> first_round db" and "round_complete db"
    and "length (highest_win_bucket db) = 1"
  shows "swissPairings shuffle db = Inr TournamentDecided \<and> snd TournamentDecided = None"
proof -
  have "last (win_groups_of db) = highest_win_bucket db"
    using assms(1) not_first_round_players [OF assms(2)] by (rule last_win_groups_highest)
  then have "length (last (win_groups_of db)) = 1"
    using assms(4) by simp
  then have "swissPairings shuffle db = Inr TournamentDecided"
    by (simp add: swissPairings_later_round [OF assms(2,3)])
  then show ?thesis
    by (simp add: TournamentDecided_def)
qed

theorem swissPairings_decided_witness:
  "playerStandings decided_scenario =
     [(1, ''A'', 3, 3), (2, ''B'', 1, 3), (3, ''C'', 1, 3), (4, ''D'', 1, 3)] \<and>
   swissPairings id decided_scenario = Inr TournamentDecided"
proof -
  have "distinct (player_ids decided_scenario)" "\<not> first_round decided_scenario"
    "round_complete decided_scenario" "length (highest_win_bucket decided_scenario) = 1"
    by code_simp+
  then have "swissPairings id decided_scenario = Inr TournamentDecided"
    using swissPairings_decided [of decided_scenario id] by blast
  moreover have "playerStandings decided_scenario =
     [(1, ''A'', 3, 3), (2, ''B'', 1, 3), (3, ''C'', 1, 3), (4, ''D'', 1, 3)]"
    by code_simp
  ultimately show ?thesis by simp
qed

section \<open>Selecting the bye player\<close>

lemma bye_join_set:
  "set [(row_id p, snd v).
          p \<leftarrow> players db, v \<leftarrow> num_wins db, row_had_bye p = False \<and> row_id p = fst v]
   = (\<lambda>p. (row_id p, wins_of db (row_id p))) ` {p \<in> set (players db). \<not> row_had_bye p}"
  (is "?L = ?R")
proof (rule set_eqI)
  fix x
  have "x \<in> ?L \<longleftrightarrow>
      (\<exists>p \<in> set (players db). \<exists>r \<in> set (players db).
         \<not> row_had_bye p \<and> row_id p = row_id r \<and> x = (row_id p, wins_of db (row_id r)))"
    by (auto simp: num_wins_def) metis+
  also have "\<dots> \<longleftrightarrow>
      (\<exists>p \<in> set (players db). \<not> row_had_bye p \<and> x = (row_id p, wins_of db (row_id p)))"
    by metis
  also have "\<dots> \<longleftrightarrow> x \<in> ?R"
    by auto
  finally show "x \<in> ?L \<longleftrightarrow> x \<in> ?R" .
qed

lemma select_player_for_bye_none:
  "\<forall>r \<in> set (players db). row_had_bye r \<Longrightarrow>
   select_player_for_bye db = Inl (TypeError none_item_msg)"
proof -
  assume a: "\<forall>r \<in> set (players db). row_had_bye r"
  let ?J = "[(row_id p, snd v).
          p \<leftarrow> players db, v \<leftarrow> num_wins db, row_had_bye p = False \<and> row_id p = fst v]"
  have "set ?J = {}"
    unfolding bye_join_set using a by auto
  then have "?J = []" by (simp only: set_empty)
  then show ?thesis
    unfolding select_player_for_bye_def by (simp only: sort_key_simps list.case)
qed

lemma select_player_for_bye_some:
  assumes "select_player_for_bye db = Inr p"
  shows "(\<exists>r \<in> set (players db). row_id r = p \<and> \<not> row_had_bye r) \<and>
         (\<forall>q \<in> set (players db). \<not> row_had_bye q \<longrightarrow> wins_of db p \<le> wins_of db (row_id q))"
proof -
  let ?J = "[(row_id p, snd v).
          p \<leftarrow> players db, v \<leftarrow> num_wins db, row_had_bye p = False \<and> row_id p = fst v]"
  obtain r rs where s: "sort_key snd ?J = r # rs" and p: "p = fst r"
    using assms unfolding select_player_for_bye_def
    by (cases "sort_key snd ?J") simp_all
  have r: "r \<in> set ?J" and least: "\<forall>x \<in> set ?J. snd r \<le> snd x"
    using sort_key_hd_least [OF s] by simp_all
  from r obtain q where q: "q \<in> set (players db)" "\<not> row_had_bye q"
    "r = (row_id q, wins_of db (row_id q))"
    unfolding bye_join_set by blast
  have 1: "\<exists>r \<in> set (players db). row_id r = p \<and> \<not> row_had_bye r"
    using q p by auto
  have 2: "wins_of db p \<le> wins_of db (row_id t)" if "t \<in> set (players db)" "\<not> row_had_bye t" for t
  proof -
    have "(row_id t, wins_of db (row_id t)) \<in> set ?J"
      unfolding bye_join_set using that by blast
    then have "snd r \<le> wins_of db (row_id t)"
      using least by fastforce
    then show ?thesis using q(3) p by simp
  qed
  show ?thesis using 1 2 by blast
qed

lemma sort_key_nonempty: "set xs \<noteq> {} \<Longrightarrow> sort_key f xs \<noteq> []"
  by (metis set_sort list.set(1))

lemma list_nonemptyE:
  assumes "xs \<noteq> []"
  obtains y ys where "xs = y # ys"
  using assms by (cases xs) auto

lemma select_player_for_bye_exists:
  assumes "\<exists>r \<in> set (players db). \<not> row_had_bye r"
  shows "\<exists>p. select_player_for_bye db = Inr p"
proof -
  let ?J = "[(row_id p, snd v).
          p \<leftarrow> players db, v \<leftarrow> num_wins db, row_had_bye p = False \<and> row_id p = fst v]"
  have "set ?J \<noteq> {}"
    unfolding bye_join_set using assms by blast
  then have "sort_key snd ?J \<noteq> []"
    by (rule sort_key_nonempty)
  then obtain r rs where "sort_key snd ?J = r # rs"
    by (rule list_nonemptyE)
  then have "select_player_for_bye db = Inr (fst r)"
    unfolding select_player_for_bye_def by (simp only: list.case)
  then show ?thesis ..
qed

text \<open>Three players who have all had their bye, one round of byes reported.\<close>

definition all_had_bye :: database where
  "all_had_bye =
     \<lparr>players = [\<lparr>row_id = 1, row_name = ''A'', row_had_bye = True\<rparr>,
                 \<lparr>row_id = 2, row_name = ''B'', row_had_bye = True\<rparr>,
                 \<lparr>row_id = 3, row_name = ''C'', row_had_bye = True\<rparr>],
      matches = [(1, None), (2, None), (3, None)]\<rparr>"

text \<open>Three players after a first round: 1 beat 2, and 3 had the bye.\<close>

definition after_round_one :: database where
  "after_round_one =
     \<lparr>players = [\<lparr>row_id = 1, row_name = ''A'', row_had_bye = False\<rparr>,
                 \<lparr>row_id = 2, row_name = ''B'', row_had_bye = False\<rparr>,
                 \<lparr>row_id = 3, row_name = ''C'', row_had_bye = True\<rparr>],
      matches = [(1, Some 2), (3, None)]\<rparr>"

text \<open>
  C5. Whenever \<open>select_player_for_bye\<close> returns a player, that player has \<open>had_bye\<close>
  false and no player with \<open>had_bye\<close> false has fewer wins; it returns one whenever some
  player has \<open>had_bye\<close> false. When every player has \<open>had_bye\<close> true it raises (the
  \<open>TypeError\<close> of \<open>fetchone()[0]\<close> on an empty result, which is the failure the
  specification names \<open>NoEligibleByeCandidate\<close>), and \<open>swissPairings\<close>, reaching the bye
  with an odd field, lets the exception through: the failure is surfaced, not handled.
\<close>

theorem select_player_for_bye_fewest_wins:
  "(select_player_for_bye db = Inr p \<longrightarrow>
      (\<exists>r \<in> set (players db). row_id r = p \<and> \<not> row_had_bye r) \<and>
      (\<forall>q \<in> set (players db). \<not> row_had_bye q \<longrightarrow> wins_of db p \<le> wins_of db (row_id q))) \<and>
   ((\<exists>r \<in> set (players db). \<not> row_had_bye r) \<longrightarrow> (\<exists>p'. select_player_for_bye db = Inr p')) \<and>
   ((\<forall>r \<in> set (players db). row_had_bye r) \<longrightarrow>
      select_player_for_bye db = Inl (TypeError none_item_msg) \<and>
      (\<not> first_round db \<and> round_complete db \<and> length (last (win_groups_of db)) \<noteq> 1 \<and>
       odd (length (playerStandings db)) \<longrightarrow>
         swissPairings shuffle db = Inl (TypeError none_item_msg)))"
proof (intro conjI impI)
  assume "select_player_for_bye db = Inr p"
  then show "\<exists>r \<in> set (players db). row_id r = p \<and> \<not> row_had_bye r"
    and "\<forall>q \<in> set (players db). \<not> row_had_bye q \<longrightarrow> wins_of db p \<le> wins_of db (row_id q)"
    using select_player_for_bye_some by blast+
next
  assume "\<exists>r \<in> set (players db). \<not> row_had_bye r"
  then show "\<exists>p'. select_player_for_bye db = Inr p'"
    by (rule select_player_for_bye_exists)
next
  assume a: "\<forall>r \<in> set (players db). row_had_bye r"
  then show s: "select_player_for_bye db = Inl (TypeError none_item_msg)"
    by (rule select_player_for_bye_none)
  assume b: "\<not> first_round db \<and> round_complete db \<and> length (last (win_groups_of db)) \<noteq> 1 \<and>
       odd (length (playerStandings db))"
  then have "\<not> first_round db" "round_complete db" by simp_all
  then show "swissPairings shuffle db = Inl (TypeError none_item_msg)"
    using b s by (simp add: swissPairings_later_round give_bye_def odd_iff_mod_2_eq_one)
qed

theorem select_player_for_bye_fewest_wins_witness:
  "select_player_for_bye after_round_one = Inr 2 \<and>
   wins_of after_round_one 2 \<le> wins_of after_round_one 1 \<and>
   select_player_for_bye all_had_bye = Inl (TypeError none_item_msg) \<and>
   swissPairings id all_had_bye = Inl (TypeError none_item_msg)"
proof -
  have s: "select_player_for_bye after_round_one = Inr 2"
    by code_simp
  have q: "\<lparr>row_id = 1, row_name = ''A'', row_had_bye = False\<rparr> \<in> set (players after_round_one)"
    by (simp add: after_round_one_def)
  note first = select_player_for_bye_fewest_wins [of after_round_one 2 id, THEN conjunct1,
      THEN mp, OF s, THEN conjunct2, THEN bspec, OF q]
  have w: "wins_of after_round_one 2 \<le> wins_of after_round_one 1"
    using first by simp
  have a: "\<forall>r \<in> set (players all_had_bye). row_had_bye r"
    by (simp add: all_had_bye_def)
  have c: "\<not> first_round all_had_bye \<and> round_complete all_had_bye \<and>
      length (last (win_groups_of all_had_bye)) \<noteq> 1 \<and> odd (length (playerStandings all_had_bye))"
    by code_simp
  note none = select_player_for_bye_fewest_wins [of all_had_bye 0 id, THEN conjunct2,
      THEN conjunct2, THEN mp, OF a]
  show ?thesis
    using s w none [THEN conjunct1] none [THEN conjunct2, THEN mp, OF c] by simp
qed

section \<open>Inputs on which the rebalancing raises\<close>

text \<open>
  Six players after three complete rounds without a rematch: player 1 lost three times,
  player 2 beat player 1 only, and players 3 to 6 won twice each. The win groups are
  \<open>[[1], [2], [3, 4, 5, 6]]\<close>.
\<close>

definition six_players :: database where
  "six_players =
     \<lparr>players = [\<lparr>row_id = 1, row_name = ''A'', row_had_bye = False\<rparr>,
                 \<lparr>row_id = 2, row_name = ''B'', row_had_bye = False\<rparr>,
                 \<lparr>row_id = 3, row_name = ''C'', row_had_bye = False\<rparr>,
                 \<lparr>row_id = 4, row_name = ''D'', row_had_bye = False\<rparr>,
                 \<lparr>row_id = 5, row_name = ''E'', row_had_bye = False\<rparr>,
                 \<lparr>row_id = 6, row_name = ''F'', row_had_bye = False\<rparr>],
      matches = [(2, Some 1), (3, Some 4), (5, Some 6),
                 (3, Some 1), (6, Some 2), (4, Some 5),
                 (4, Some 1), (5, Some 2), (6, Some 3)]\<rparr>"

text \<open>
  Four players after a complete round robin: player 1 lost to everyone, and players 2, 3
  and 4 beat one another in a cycle. The win groups are \<open>[[1], [], [2, 3, 4]]\<close>.
\<close>

definition round_robin :: database where
  "round_robin =
     \<lparr>players = [\<lparr>row_id = 1, row_name = ''A'', row_had_bye = False\<rparr>,
                 \<lparr>row_id = 2, row_name = ''B'', row_had_bye = False\<rparr>,
                 \<lparr>row_id = 3, row_name = ''C'', row_had_bye = False\<rparr>,
                 \<lparr>row_id = 4, row_name = ''D'', row_had_bye = False\<rparr>],
      matches = [(2, Some 1), (3, Some 4), (3, Some 1), (4, Some 2), (4, Some 1), (2, Some 3)]\<rparr>"

text \<open>
  Four players, four matches each: players 1 and 2 beat each other once and lost all
  other matches, players 3 and 4 beat each other once and won all other matches. The
  win groups are \<open>[[], [1, 2], [], [3, 4]]\<close>, and players 1 and 2 have met.
\<close>

definition empty_donor :: database where
  "empty_donor =
     \<lparr>players = [\<lparr>row_id = 1, row_name = ''A'', row_had_bye = False\<rparr>,
                 \<lparr>row_id = 2, row_name = ''B'', row_had_bye = False\<rparr>,
                 \<lparr>row_id = 3, row_name = ''C'', row_had_bye = False\<rparr>,
                 \<lparr>row_id = 4, row_name = ''D'', row_had_bye = False\<rparr>],
      matches = [(1, Some 2), (2, Some 1), (3, Some 1), (3, Some 2),
                 (4, Some 1), (4, Some 2), (3, Some 4), (4, Some 3)]\<rparr>"

text \<open>
  C8, on the code. With an even number of ids in all, the evenness pass does not end
  with even groups: once a borrow has emptied and deleted a group, the loop, whose range
  was computed before, indexes past the end of the list and raises; and when the group
  after an odd one is empty, \<open>pop(0)\<close> raises. Neither is the \<open>IndexError\<close> of the check
  for a missing next group, and both go through \<open>swissPairings\<close> uncaught.
\<close>

theorem evenness_pass_raises_on_even_total:
  "win_groups_of six_players = [[1], [2], [3, 4, 5, 6]] \<and>
   even (length (concat (win_groups_of six_players))) \<and>
   move_item_to_list [[1], [2], [3, 4, 5, 6 :: int]] 0 = Inr [[1, 2], [3, 4, 5, 6]] \<and>
   evenness_pass (win_groups_of six_players) = Inl (IndexError index_range_msg) \<and>
   swissPairings id six_players = Inl (IndexError index_range_msg) \<and>
   win_groups_of round_robin = [[1], [], [2, 3, 4]] \<and>
   even (length (concat (win_groups_of round_robin))) \<and>
   evenness_pass (win_groups_of round_robin) = Inl (IndexError pop_empty_msg) \<and>
   swissPairings id round_robin = Inl (IndexError pop_empty_msg) \<and>
   index_range_msg \<noteq> no_list_msg \<and> pop_empty_msg \<noteq> no_list_msg"
  by code_simp

text \<open>
  C4, on the code. The resolver reports bucket 1 of four buckets, so a next bucket
  exists; it is empty, and the repair raises from \<open>pop(0)\<close>: it neither fails with
  \<open>UnresolvablePairing\<close> nor moves two ids and restarts.
\<close>

theorem repair_raises_on_empty_donor:
  "win_groups_of empty_donor = [[], [1, 2], [], [3, 4]] \<and>
   evenness_pass (win_groups_of empty_donor) = Inr (win_groups_of empty_donor) \<and>
   generate_pairings empty_donor (win_groups_of empty_donor) = Inr (None, Some 1) \<and>
   \<not> 1 + 2 > length (win_groups_of empty_donor) \<and>
   move_item_to_list (win_groups_of empty_donor) 1 = Inl (IndexError pop_empty_msg) \<and>
   resolve empty_donor (win_groups_of empty_donor) = Inl (IndexError pop_empty_msg) \<and>
   swissPairings id empty_donor = Inl (IndexError pop_empty_msg) \<and>
   swissPairings id empty_donor \<noteq> Inr UnresolvablePairing"
  by code_simp

section \<open>What the resolver returns\<close>

text \<open>The two ids of a pairing.\<close>

definition pairing_pair :: "pairing \<Rightarrow> int \<times> int" where
  "pairing_pair pr = (fst pr, fst (snd (snd pr)))"

text \<open>A pairing names the two players of a pair as the players table names them.\<close>

definition names_pair :: "database \<Rightarrow> int \<times> int \<Rightarrow> pairing \<Rightarrow> bool" where
  "names_pair db pair pr \<longleftrightarrow>
     pairing_pair pr = pair \<and>
     id_to_name db (fst pair) = Inr (fst (snd pr)) \<and>
     id_to_name db (snd pair) = Inr (snd (snd (snd pr)))"

text \<open>
  The matching the specification accepts for a bucket: the first candidate, in the
  order of \<open>all_pairs\<close>, none of whose pairs is a rematch.
\<close>

definition rematch_free :: "database \<Rightarrow> (int \<times> int) list \<Rightarrow> bool" where
  "rematch_free db pairs \<longleftrightarrow> (\<forall>pair \<in> set pairs. \<not> check_for_rematch db (fst pair) (snd pair))"

definition accepted_matching :: "database \<Rightarrow> int list \<Rightarrow> (int \<times> int) list option" where
  "accepted_matching db win_group =
     (case all_pairs win_group of
        Inl e \<Rightarrow> None
      | Inr candidates \<Rightarrow> find (rematch_free db) candidates)"

lemma contains_rematch_iff: "contains_rematch db pairs \<longleftrightarrow> \<not> rematch_free db pairs"
  by (induction pairs) (auto simp: rematch_free_def)

lemma name_pairs_result:
  "name_pairs db pairs pairings = Inr res \<Longrightarrow>
   \<exists>named. res = pairings @ named \<and> list_all2 (names_pair db) pairs named"
proof (induction pairs arbitrary: pairings)
  case Nil
  then show ?case by simp
next
  case (Cons pair pairs)
  from Cons.prems obtain n1 n2 where n: "id_to_name db (fst pair) = Inr n1"
    "id_to_name db (snd pair) = Inr n2"
    and r: "name_pairs db pairs (pairings @ [(fst pair, n1, snd pair, n2)]) = Inr res"
    by (auto split: sum.splits)
  from Cons.IH [OF r] obtain named where named:
    "res = (pairings @ [(fst pair, n1, snd pair, n2)]) @ named"
    "list_all2 (names_pair db) pairs named"
    by blast
  have "names_pair db pair (fst pair, n1, snd pair, n2)"
    using n by (simp add: names_pair_def pairing_pair_def)
  then have "list_all2 (names_pair db) (pair # pairs) ((fst pair, n1, snd pair, n2) # named)"
    using named(2) by simp
  moreover have "res = pairings @ (fst pair, n1, snd pair, n2) # named"
    using named(1) by simp
  ultimately show ?case by blast
qed

lemma try_candidates_some:
  "try_candidates db candidates pairings = Inr (Some res) \<Longrightarrow>
   \<exists>m. find (rematch_free db) candidates = Some m \<and> name_pairs db m pairings = Inr res"
  by (induction candidates) (auto simp: contains_rematch_iff split: if_splits sum.splits)

lemma try_candidates_none:
  "try_candidates db candidates pairings = Inr None \<Longrightarrow> find (rematch_free db) candidates = None"
  by (induction candidates) (auto simp: contains_rematch_iff split: if_splits sum.splits)

lemma generate_loop_result:
  "generate_loop db idx win_groups pairings = Inr (Some res, err) \<Longrightarrow>
   err = None \<and>
   (\<exists>ms named. list_all2 (\<lambda>g m. accepted_matching db g = Some m) win_groups ms \<and>
               list_all2 (names_pair db) (concat ms) named \<and> res = pairings @ named)"
proof (induction win_groups arbitrary: idx pairings)
  case Nil
  then show ?case by simp
next
  case (Cons g gs)
  from Cons.prems obtain cands p' where c: "all_pairs g = Inr cands"
    and t: "try_candidates db cands pairings = Inr (Some p')"
    and l: "generate_loop db (idx + 1) gs p' = Inr (Some res, err)"
    by (auto split: sum.splits option.splits)
  from try_candidates_some [OF t] obtain m where m: "find (rematch_free db) cands = Some m"
    "name_pairs db m pairings = Inr p'"
    by blast
  from name_pairs_result [OF m(2)] obtain named1 where n1: "p' = pairings @ named1"
    "list_all2 (names_pair db) m named1"
    by blast
  from Cons.IH [OF l] obtain ms named2 where e: "err = None"
    and ms: "list_all2 (\<lambda>g m. accepted_matching db g = Some m) gs ms"
    "list_all2 (names_pair db) (concat ms) named2" "res = p' @ named2"
    by blast
  have "accepted_matching db g = Some m"
    using c m(1) by (simp add: accepted_matching_def)
  then have "list_all2 (\<lambda>g m. accepted_matching db g = Some m) (g # gs) (m # ms)"
    using ms(1) by simp
  moreover have "list_all2 (names_pair db) (concat (m # ms)) (named1 @ named2)"
    using n1(2) ms(2) by (simp add: list_all2_appendI)
  moreover have "res = pairings @ named1 @ named2"
    using n1(1) ms(3) by simp
  ultimately show ?case using e by blast
qed

lemma generate_loop_failed:
  "generate_loop db idx win_groups pairings = Inr (None, err) \<Longrightarrow>
   \<exists>i < length win_groups. err = Some (idx + i) \<and> accepted_matching db (win_groups ! i) = None \<and>
     (\<forall>j < i. accepted_matching db (win_groups ! j) \<noteq> None)"
proof (induction win_groups arbitrary: idx pairings)
  case Nil
  then show ?case by simp
next
  case (Cons g gs)
  from Cons.prems obtain cands where c: "all_pairs g = Inr cands"
    by (auto split: sum.splits)
  show ?case
  proof (cases "find (rematch_free db) cands")
    case None
    then have a: "accepted_matching db g = None"
      using c by (simp add: accepted_matching_def)
    have "try_candidates db cands pairings = Inr None"
      using Cons.prems c None try_candidates_some [of db cands pairings]
      by (auto split: sum.splits option.splits)
    then have "err = Some idx"
      using Cons.prems c by simp
    then show ?thesis using a by auto
  next
    case (Some m)
    then have a: "accepted_matching db g = Some m"
      using c by (simp add: accepted_matching_def)
    obtain p' where l: "generate_loop db (idx + 1) gs p' = Inr (None, err)"
      using Cons.prems c Some try_candidates_none [of db cands pairings]
      by (auto split: sum.splits option.splits)
    from Cons.IH [OF l] obtain i where i: "i < length gs" "err = Some (idx + 1 + i)"
      "accepted_matching db (gs ! i) = None" "\<forall>j < i. accepted_matching db (gs ! j) \<noteq> None"
      by blast
    have "\<forall>j < Suc i. accepted_matching db ((g # gs) ! j) \<noteq> None"
      using a i(4) by (auto simp: nth_Cons split: nat.splits)
    then show ?thesis
      using i by (intro exI [of _ "Suc i"]) simp
  qed
qed

lemma resolve_result:
  "resolve db win_groups = Inr (Some res) \<Longrightarrow>
   \<exists>gs. mset (concat gs) = mset (concat win_groups) \<and>
        generate_pairings db gs = Inr (Some res, None)"
proof (induction db win_groups rule: resolve.induct)
  case (1 db win_groups)
  show ?case
  proof (cases "generate_pairings db win_groups")
    case (Inl e)
    then show ?thesis using "1.prems" by (simp add: resolve.simps)
  next
    case (Inr r)
    obtain pairings_res error_in_group where r: "r = (pairings_res, error_in_group)"
      by (cases r)
    show ?thesis
    proof (cases error_in_group)
      case None
      then have "pairings_res = Some res"
        using "1.prems" Inr r by (simp add: resolve.simps)
      then show ?thesis using Inr r None by blast
    next
      case (Some idx)
      from "1.prems" Inr r Some have n: "\<not> idx + 2 > length win_groups"
        by (auto simp: resolve.simps split: if_splits)
      from "1.prems" Inr r Some n obtain g1 g2 where
        g: "move_item_to_list win_groups idx = Inr g1" "move_item_to_list g1 idx = Inr g2"
        and res: "resolve db g2 = Inr (Some res)"
        by (auto simp: resolve.simps split: sum.splits)
      from "1.IH" [OF Inr r [symmetric] Some n g res] obtain gs where
        "mset (concat gs) = mset (concat g2)" "generate_pairings db gs = Inr (Some res, None)"
        by blast
      moreover have "mset (concat g2) = mset (concat win_groups)"
        using move_item_to_list_mset [OF g(1)] move_item_to_list_mset [OF g(2)] by simp
      ultimately show ?thesis by auto
    qed
  qed
qed

section \<open>Every player is paired once\<close>

text \<open>
  The slots of a pairing: one for a self-paired pairing (a bye), two otherwise.
\<close>

definition self_paired :: "pairing \<Rightarrow> bool" where
  "self_paired pr \<longleftrightarrow> fst pr = fst (snd (snd pr))"

definition pairing_ids :: "pairing \<Rightarrow> int list" where
  "pairing_ids pr = (if self_paired pr then [fst pr] else [fst pr, fst (snd (snd pr))])"

lemma accepted_matching_some:
  assumes "accepted_matching db g = Some m"
  shows "m \<in> set (spec_matchings g) \<and> rematch_free db m \<and> mset (flatten_pairs m) = mset g"
proof -
  from assms obtain cands where c: "all_pairs g = Inr cands" and f: "find (rematch_free db) cands = Some m"
    by (auto simp: accepted_matching_def split: sum.splits)
  have "even (length g)"
    using c all_pairs_odd [of g] by (cases "even (length g)") auto
  then have "cands = spec_matchings g"
    using c all_pairs_even [of g] by simp
  moreover have "m \<in> set cands \<and> rematch_free db m"
    using f by (auto simp: find_Some_iff)
  ultimately show ?thesis
    using spec_matchings_mset by blast
qed

lemma accepted_matchings_mset:
  "list_all2 (\<lambda>g m. accepted_matching db g = Some m) gs ms \<Longrightarrow>
   mset (flatten_pairs (concat ms)) = mset (concat gs) \<and> rematch_free db (concat ms)"
proof (induction rule: list_all2_induct)
  case Nil
  show ?case by (simp add: flatten_pairs_def rematch_free_def)
next
  case (Cons g gs m ms)
  have "mset (flatten_pairs m) = mset g" "rematch_free db m"
    using accepted_matching_some [OF Cons.hyps(1)] by simp_all
  then show ?case
    using Cons.IH by (auto simp: flatten_pairs_def rematch_free_def)
qed

lemma named_pairs_ids:
  "list_all2 (names_pair db) pairs named \<Longrightarrow> distinct (flatten_pairs pairs) \<Longrightarrow>
   concat (map pairing_ids named) = flatten_pairs pairs \<and> filter self_paired named = [] \<and>
   map pairing_pair named = pairs"
proof (induction rule: list_all2_induct)
  case Nil
  show ?case by (simp add: flatten_pairs_def)
next
  case (Cons pair pairs pr named)
  obtain a b where pair: "pair = (a, b)" by (cases pair)
  have f: "flatten_pairs ((a, b) # pairs) = a # b # flatten_pairs pairs"
    by (simp add: flatten_pairs_def)
  have ab: "a \<noteq> b" and d: "distinct (flatten_pairs pairs)"
    using Cons.prems by (simp_all add: f pair)
  have pp: "pairing_pair pr = (a, b)"
    using Cons.hyps(1) by (simp add: names_pair_def pair)
  then have "\<not> self_paired pr" "pairing_ids pr = [a, b]"
    using ab by (auto simp: self_paired_def pairing_ids_def pairing_pair_def)
  then show ?case
    using Cons.IH [OF d] pp by (simp add: f pair)
qed

lemma partition_by_key:
  "mset (concat (map (\<lambda>w. filter (\<lambda>r. f r = w) xs) [0..<k])) = mset (filter (\<lambda>r. f r < k) xs)"
proof (induction k)
  case 0
  show ?case by simp
next
  case (Suc k)
  have "mset (filter (\<lambda>r. f r < Suc k) xs)
      = mset (filter (\<lambda>r. f r < k) xs) + mset (filter (\<lambda>r. f r = k) xs)"
    by (induction xs) auto
  then show ?case using Suc by simp
qed

lemma win_groups_of_cover:
  assumes "distinct (player_ids db)"
  shows "mset (concat (win_groups_of db)) = mset (player_ids db)"
proof -
  let ?n = "standing_wins (hd (playerStandings db))"
  let ?f = "\<lambda>r. wins_of db (row_id r)"
  have "concat (map (win_group_query db) ws)
      = map row_id (concat (map (\<lambda>w. filter (\<lambda>r. ?f r = w) (players db)) ws))" for ws
    by (induction ws) (simp_all add: win_group_query_players)
  then have "concat (win_groups_of db)
      = map row_id (concat (map (\<lambda>w. filter (\<lambda>r. ?f r = w) (players db)) [0..<?n + 1]))"
    unfolding win_groups_of_def .
  then have "mset (concat (win_groups_of db))
      = image_mset row_id
          (mset (concat (map (\<lambda>w. filter (\<lambda>r. ?f r = w) (players db)) [0..<?n + 1])))"
    by (simp only: mset_map)
  also have "\<dots> = image_mset row_id (mset (filter (\<lambda>r. ?f r < ?n + 1) (players db)))"
    by (simp only: partition_by_key)
  finally have m: "mset (concat (win_groups_of db))
      = image_mset row_id (mset (filter (\<lambda>r. ?f r < ?n + 1) (players db)))" .
  have "?f r < ?n + 1" if "r \<in> set (players db)" for r
    using playerStandings_hd_wins [OF assms that] by simp
  then have "\<forall>r \<in> set (players db). ?f r < ?n + 1"
    by blast
  then have "filter (\<lambda>r. ?f r < ?n + 1) (players db) = players db"
    by (rule filter_True)
  then show ?thesis
    using m by (simp add: player_ids_def)
qed

lemma remove_from_groups_mset:
  "p \<in> set (concat gs) \<Longrightarrow>
   mset (concat (remove_from_groups p gs)) = mset (concat gs) - {#p#}"
proof (induction gs)
  case Nil
  then show ?case by simp
next
  case (Cons g gs)
  show ?case
  proof (cases "p \<in> set g")
    case True
    then have "count_list g p > 0"
      using count_list_0_iff [of g p] by auto
    then show ?thesis using True by simp
  next
    case False
    then have c: "\<not> count_list g p > 0"
      using count_list_0_iff [of g p] by auto
    have "p \<in> set (concat gs)" using Cons.prems False by simp
    then have "mset (concat (remove_from_groups p gs)) = mset (concat gs) - {#p#}"
      by (rule Cons.IH)
    moreover have "p \<in># mset (concat gs)"
      using \<open>p \<in> set (concat gs)\<close> by simp
    ultimately show ?thesis using c by simp
  qed
qed

lemma id_to_name_first:
  "id_to_name db p = Inr n \<Longrightarrow> \<exists>r \<in> set (players db). row_id r = p \<and> row_name r = n"
proof -
  assume "id_to_name db p = Inr n"
  then obtain r rs where f: "filter (\<lambda>r. row_id r = p) (players db) = r # rs" and n: "row_name r = n"
    by (auto simp: id_to_name_def split: list.splits)
  have "r \<in> set (filter (\<lambda>r. row_id r = p) (players db))"
    by (simp add: f)
  then show ?thesis using n by auto
qed

lemma give_bye_result:
  assumes "give_bye db gs pairings = Inr (g1, p1)"
  shows "\<exists>p name. select_player_for_bye db = Inr p \<and> id_to_name db p = Inr name \<and>
           g1 = remove_from_groups p gs \<and> p1 = pairings @ [(p, name, p, bye_marker)] \<and>
           p \<in> set (player_ids db)"
proof -
  from assms obtain p name where s: "select_player_for_bye db = Inr p"
    and n: "id_to_name db p = Inr name"
    and r: "g1 = remove_from_groups p gs" "p1 = pairings @ [(p, name, p, bye_marker)]"
    by (auto simp: give_bye_def Let_def split: sum.splits)
  have "p \<in> set (player_ids db)"
    using select_player_for_bye_some [OF s] by (auto simp: player_ids_def)
  then show ?thesis using s n r by blast
qed

lemma evenness_loop_mset:
  "evenness_loop is gs = Inr gs' \<Longrightarrow> mset (concat gs') = mset (concat gs)"
proof (induction "is" arbitrary: gs)
  case Nil
  then show ?case by simp
next
  case (Cons i "is")
  show ?case
  proof (cases "length (gs ! i) mod 2 \<noteq> 0")
    case True
    with Cons.prems obtain g1 where m: "move_item_to_list gs i = Inr g1"
      and l: "evenness_loop is g1 = Inr gs'"
      by (auto split: if_splits sum.splits)
    show ?thesis
      using Cons.IH [OF l] move_item_to_list_mset [OF m] by simp
  next
    case False
    with Cons.prems have "evenness_loop is gs = Inr gs'"
      by (auto split: if_splits)
    then show ?thesis by (rule Cons.IH)
  qed
qed

lemma evenness_pass_mset:
  "evenness_pass gs = Inr gs' \<Longrightarrow> mset (concat gs') = mset (concat gs)"
  unfolding evenness_pass_def by (rule evenness_loop_mset)

lemma swissPairings_later_result:
  assumes "\<not> first_round db" and "swissPairings shuffle db = Inr (out, Some ps)"
  shows "round_complete db \<and> out = [] \<and>
     (\<exists>g0 p1 g2 res.
        (if length (playerStandings db) mod 2 \<noteq> 0
         then give_bye db (win_groups_of db) [] else Inr (win_groups_of db, [])) = Inr (g0, p1) \<and>
        evenness_pass g0 = Inr g2 \<and> resolve db g2 = Inr (Some res) \<and> ps = p1 @ res)"
proof -
  have rc: "round_complete db"
  proof (rule ccontr)
    assume "\<not> round_complete db"
    then have "swissPairings shuffle db = Inr IncompleteRound"
      using assms(1) by (simp add: swissPairings_incomplete)
    then show False using assms(2) by (simp add: IncompleteRound_def)
  qed
  define bye where "bye = (if length (playerStandings db) mod 2 \<noteq> 0
         then give_bye db (win_groups_of db) [] else Inr (win_groups_of db, []))"
  have sp: "swissPairings shuffle db =
     (if length (last (win_groups_of db)) = 1 then Inr TournamentDecided
      else
        (case bye of
           Inl e \<Rightarrow> Inl e
         | Inr (win_groups1, pairings1) \<Rightarrow>
             (case evenness_pass win_groups1 of
                Inl e \<Rightarrow> Inl e
              | Inr win_groups2 \<Rightarrow>
                  (case resolve db win_groups2 of
                     Inl e \<Rightarrow> Inl e
                   | Inr None \<Rightarrow> Inr UnresolvablePairing
                   | Inr (Some pairings_res) \<Rightarrow> Inr ([], Some (pairings1 @ pairings_res))))))"
    unfolding bye_def by (rule swissPairings_later_round [OF assms(1) rc])
  have "out = [] \<and> (\<exists>g0 p1 g2 res. bye = Inr (g0, p1) \<and>
        evenness_pass g0 = Inr g2 \<and> resolve db g2 = Inr (Some res) \<and> ps = p1 @ res)"
    using assms(2) unfolding sp
    by (auto simp: TournamentDecided_def UnresolvablePairing_def
        split: if_splits sum.splits option.splits prod.splits)
  then show ?thesis
    using rc unfolding bye_def by simp
qed

lemma pairing_loop_result:
  "distinct (map fst st) \<Longrightarrow> pairing_loop h d st acc = Inr res \<Longrightarrow>
   \<exists>new. res = acc @ new \<and> concat (map pairing_ids new) = map fst st \<and>
         length (filter self_paired new) = (if h \<and> \<not> d \<and> st \<noteq> [] then 1 else 0) \<and>
         (\<forall>pr \<in> set new. self_paired pr \<longrightarrow> snd (snd (snd pr)) = bye_marker)"
proof (induction h d st acc arbitrary: res rule: pairing_loop.induct)
  case (1 h d acc)
  then show ?case by simp
next
  case (2 h d home it acc)
  show ?case
  proof (cases "h \<and> \<not> d")
    case True
    define pr where "pr = (fst home, fst (snd home), fst home, bye_marker)"
    have l: "pairing_loop h True it (acc @ [pr]) = Inr res"
      using "2.prems"(2) True by (simp add: pr_def)
    have d: "distinct (map fst it)"
      using "2.prems"(1) by simp
    from "2.IH"(1) [OF True d l [unfolded pr_def]] obtain new where new:
      "res = (acc @ [pr]) @ new" "concat (map pairing_ids new) = map fst it"
      "length (filter self_paired new) = 0"
      "\<forall>q \<in> set new. self_paired q \<longrightarrow> snd (snd (snd q)) = bye_marker"
      unfolding pr_def by auto
    have p: "self_paired pr" "pairing_ids pr = [fst home]" "snd (snd (snd pr)) = bye_marker"
      by (simp_all add: pr_def self_paired_def pairing_ids_def)
    show ?thesis
      using new p True by (intro exI [of _ "pr # new"]) simp
  next
    case False
    then obtain away it' where it: "it = away # it'"
      using "2.prems"(2) by (cases it) auto
    define pr where "pr = (fst home, fst (snd home), fst away, fst (snd away))"
    have l: "pairing_loop h d it' (acc @ [pr]) = Inr res"
      using "2.prems"(2) False it by (auto simp: pr_def)
    have d: "distinct (map fst it')" and ne: "fst home \<noteq> fst away"
      using "2.prems"(1) it by auto
    from "2.IH"(2) [OF False it d l [unfolded pr_def]] obtain new where new:
      "res = (acc @ [pr]) @ new" "concat (map pairing_ids new) = map fst it'"
      "length (filter self_paired new) = 0"
      "\<forall>q \<in> set new. self_paired q \<longrightarrow> snd (snd (snd q)) = bye_marker"
      unfolding pr_def using False by auto
    have p: "\<not> self_paired pr" "pairing_ids pr = [fst home, fst away]"
      using ne by (simp_all add: pr_def self_paired_def pairing_ids_def)
    show ?thesis
      using new p False it by (intro exI [of _ "pr # new"]) simp
  qed
qed

lemma pairing_loop_total:
  "(if h \<and> \<not> d then odd (length st) else even (length st)) \<Longrightarrow>
   \<exists>res. pairing_loop h d st acc = Inr res"
proof (induction h d st acc rule: pairing_loop.induct)
  case (1 h d acc)
  show ?case by simp
next
  case (2 h d home it acc)
  show ?case
  proof (cases "h \<and> \<not> d")
    case True
    then have "even (length it)"
      using "2.prems" by simp
    then show ?thesis
      using "2.IH"(1) [OF True] True by simp
  next
    case False
    then have o: "odd (length it)"
      using "2.prems" by auto
    then obtain away it' where it: "it = away # it'"
      by (cases it) auto
    have "even (length it')" using o it by simp
    then show ?thesis
      using "2.IH"(2) [OF False it] False it by auto
  qed
qed

lemma concat_index_unique:
  "distinct (concat xss) \<Longrightarrow> j < length xss \<Longrightarrow> k < length xss \<Longrightarrow>
   x \<in> set (xss ! j) \<Longrightarrow> x \<in> set (xss ! k) \<Longrightarrow> j = k"
proof (induction xss arbitrary: j k)
  case Nil
  then show ?case by simp
next
  case (Cons ys xss)
  have d: "distinct (concat xss)" and disj: "set ys \<inter> set (concat xss) = {}"
    using Cons.prems(1) by simp_all
  have later: "x \<in> set (concat xss)" if "i < length xss" "x \<in> set (xss ! i)" for i
    using that by (auto intro: nth_mem)
  show ?case
  proof (cases j)
    case 0
    show ?thesis
    proof (cases k)
      case 0
      with \<open>j = 0\<close> show ?thesis by simp
    next
      case (Suc k')
      then have "x \<in> set (concat xss)"
        using Cons.prems(3,5) later [of k'] by simp
      moreover have "x \<in> set ys"
        using Cons.prems(4) \<open>j = 0\<close> by simp
      ultimately show ?thesis using disj by blast
    qed
  next
    case (Suc j')
    show ?thesis
    proof (cases k)
      case 0
      have "x \<in> set (concat xss)"
        using Cons.prems(2,4) later [of j'] Suc by simp
      moreover have "x \<in> set ys"
        using Cons.prems(5) 0 by simp
      ultimately show ?thesis using disj by blast
    next
      case k: (Suc k')
      have "j' = k'"
        using Cons.IH [OF d, of j' k'] Cons.prems(2-5) Suc k by simp
      then show ?thesis using Suc k by simp
    qed
  qed
qed

lemma concat_index_exists:
  "x \<in> set (concat xss) \<Longrightarrow> \<exists>j < length xss. x \<in> set (xss ! j)"
  by (auto simp: in_set_conv_nth) blast

lemma first_round_slots:
  assumes "distinct (player_ids db)"
    and "mset (shuffle (playerStandings db)) = mset (playerStandings db)"
    and "first_round db" and "swissPairings shuffle db = Inr (out, Some ps)"
  shows "mset (concat (map pairing_ids ps)) = mset (player_ids db) \<and>
         length (filter self_paired ps) = (if odd (length (players db)) then 1 else 0) \<and>
         (\<forall>pr \<in> set ps. self_paired pr \<longrightarrow> snd (snd (snd pr)) = bye_marker)"
proof -
  define st where "st = shuffle (playerStandings db)"
  have loop: "pairing_loop (length st mod 2 \<noteq> 0) False st [] = Inr ps"
    using assms(4) unfolding swissPairings_first_round [OF assms(3)]
    by (auto simp: random_pairing_def Let_def st_def split: sum.splits)
  have ids: "mset (map fst st) = mset (player_ids db)"
  proof -
    have "mset (map fst st) = image_mset fst (mset (playerStandings db))"
      using assms(2) by (simp add: st_def)
    also have "\<dots> = mset (map standing_id (playerStandings db))"
      by (simp add: standing_id_def [abs_def])
    finally show ?thesis
      using playerStandings_ids [OF assms(1)] by simp
  qed
  then have d: "distinct (map fst st)"
    using assms(1) by (metis mset_eq_imp_distinct_iff)
  have len: "length st = length (players db)"
    using mset_eq_length [OF ids] by (simp add: player_ids_def)
  from pairing_loop_result [OF d loop] obtain new where new: "ps = [] @ new"
    "concat (map pairing_ids new) = map fst st"
    "length (filter self_paired new) = (if length st mod 2 \<noteq> 0 \<and> \<not> False \<and> st \<noteq> [] then 1 else 0)"
    "\<forall>pr \<in> set new. self_paired pr \<longrightarrow> snd (snd (snd pr)) = bye_marker"
    by blast
  have "length st mod 2 \<noteq> 0 \<longrightarrow> st \<noteq> []"
    by auto
  then have "length (filter self_paired ps) = (if odd (length (players db)) then 1 else 0)"
    using new(1,3) len by (auto simp: odd_iff_mod_2_eq_one)
  moreover have "mset (concat (map pairing_ids ps)) = mset (player_ids db)"
    using new(1,2) ids by simp
  ultimately show ?thesis using new(1,4) by simp
qed

lemma distinct_mset_subseteq:
  assumes "mset xs \<subseteq># mset ys" and "distinct ys"
  shows "distinct xs"
proof -
  have "count (mset xs) a \<le> 1" for a
  proof -
    have "count (mset xs) a \<le> count (mset ys) a"
      using assms(1) by (rule mset_subset_eq_count)
    also have "\<dots> \<le> 1"
      using assms(2) by (simp add: distinct_count_atmost_1)
    finally show ?thesis .
  qed
  then have "count (mset xs) a = (if a \<in> set xs then 1 else 0)" for a
    using count_mset_0_iff [of xs a] le_Suc_eq by (cases "a \<in> set xs") fastforce+
  then show ?thesis
    by (simp only: distinct_count_atmost_1) simp
qed

lemma generate_pairings_slots:
  assumes "generate_pairings db gs = Inr (Some res, err)" and "distinct (concat gs)"
  shows "mset (concat (map pairing_ids res)) = mset (concat gs) \<and> filter self_paired res = [] \<and>
         rematch_free db (map pairing_pair res)"
proof -
  from generate_loop_result [OF assms(1) [unfolded generate_pairings_def]] obtain ms named where
    ms: "list_all2 (\<lambda>g m. accepted_matching db g = Some m) gs ms"
      "list_all2 (names_pair db) (concat ms) named" "res = [] @ named"
    by blast
  have m: "mset (flatten_pairs (concat ms)) = mset (concat gs)" and rf: "rematch_free db (concat ms)"
    using accepted_matchings_mset [OF ms(1)] by simp_all
  then have "distinct (flatten_pairs (concat ms))"
    using assms(2) by (metis mset_eq_imp_distinct_iff)
  then have "concat (map pairing_ids named) = flatten_pairs (concat ms)"
    "filter self_paired named = []" "map pairing_pair named = concat ms"
    using named_pairs_ids [OF ms(2)] by simp_all
  then show ?thesis using m rf ms(3) by simp
qed

lemma later_round_slots:
  assumes "distinct (player_ids db)" and "\<not> first_round db"
    and "swissPairings shuffle db = Inr (out, Some ps)"
  shows "mset (concat (map pairing_ids ps)) = mset (player_ids db) \<and>
         length (filter self_paired ps) = (if odd (length (players db)) then 1 else 0) \<and>
         (\<forall>pr \<in> set ps. self_paired pr \<longrightarrow> snd (snd (snd pr)) = bye_marker)"
proof -
  from swissPairings_later_result [OF assms(2,3)] obtain g0 p1 g2 res where
    bye: "(if length (playerStandings db) mod 2 \<noteq> 0
         then give_bye db (win_groups_of db) [] else Inr (win_groups_of db, [])) = Inr (g0, p1)"
    and ev: "evenness_pass g0 = Inr g2" and rs: "resolve db g2 = Inr (Some res)"
    and ps: "ps = p1 @ res"
    by blast
  have cover: "mset (concat (win_groups_of db)) = mset (player_ids db)"
    using assms(1) by (rule win_groups_of_cover)
  have len: "length (playerStandings db) = length (players db)"
    using assms(1) by (rule playerStandings_length)
  from resolve_result [OF rs] obtain gs where
    gs: "mset (concat gs) = mset (concat g2)" "generate_pairings db gs = Inr (Some res, None)"
    by blast
  have g2: "mset (concat gs) = mset (concat g0)"
    using gs(1) evenness_pass_mset [OF ev] by simp
  show ?thesis
  proof (cases "length (playerStandings db) mod 2 \<noteq> 0")
    case False
    then have g0: "g0 = win_groups_of db" "p1 = []"
      using bye by simp_all
    have m: "mset (concat gs) = mset (player_ids db)"
      using g2 g0 cover by simp
    then have "distinct (concat gs)"
      using assms(1) by (metis mset_eq_imp_distinct_iff)
    from generate_pairings_slots [OF gs(2) this]
    have r: "mset (concat (map pairing_ids res)) = mset (concat gs)" "filter self_paired res = []"
      by simp_all
    have e: "even (length (players db))"
      using False len by presburger
    have ns: "\<not> self_paired q" if "q \<in> set res" for q
      using r(2) that by (simp add: filter_empty_conv)
    have "\<forall>pr \<in> set ps. self_paired pr \<longrightarrow> snd (snd (snd pr)) = bye_marker"
    proof
      fix pr assume "pr \<in> set ps"
      then have "pr \<in> set res" by (simp add: ps g0)
      then have "\<not> self_paired pr" by (rule ns)
      then show "self_paired pr \<longrightarrow> snd (snd (snd pr)) = bye_marker" by simp
    qed
    moreover have "mset (concat (map pairing_ids ps)) = mset (player_ids db)"
      using r(1) m by (simp add: ps g0)
    moreover have "length (filter self_paired ps) = 0"
      using r(2) by (simp add: ps g0)
    ultimately show ?thesis
      using e by simp
  next
    case True
    then have "give_bye db (win_groups_of db) [] = Inr (g0, p1)"
      using bye by simp
    from give_bye_result [OF this] obtain p name where
      p: "g0 = remove_from_groups p (win_groups_of db)" "p1 = [] @ [(p, name, p, bye_marker)]"
        "p \<in> set (player_ids db)"
      by blast
    have "p \<in> set (concat (win_groups_of db))"
      using p(3) cover by (metis set_mset_mset)
    then have "mset (concat g0) = mset (player_ids db) - {#p#}"
      using remove_from_groups_mset [of p "win_groups_of db"] p(1) cover by simp
    then have m: "mset (concat gs) = mset (player_ids db) - {#p#}"
      using g2 by simp
    have "distinct (concat gs)"
    proof -
      have "mset (concat gs) \<subseteq># mset (player_ids db)"
        using m by simp
      then show ?thesis
        using assms(1) by (rule distinct_mset_subseteq)
    qed
    from generate_pairings_slots [OF gs(2) this]
    have r: "mset (concat (map pairing_ids res)) = mset (concat gs)" "filter self_paired res = []"
      by simp_all
    have b: "self_paired (p, name, p, bye_marker)" "pairing_ids (p, name, p, bye_marker) = [p]"
      by (simp_all add: self_paired_def pairing_ids_def)
    have "p \<in># mset (player_ids db)"
      using p(3) by simp
    then have "mset (concat (map pairing_ids ps)) = mset (player_ids db)"
      using r(1) m b(2) by (simp add: ps p(2))
    moreover have "length (filter self_paired ps) = 1"
      using r(2) b(1) by (simp add: ps p(2))
    moreover have "\<forall>pr \<in> set ps. self_paired pr \<longrightarrow> snd (snd (snd pr)) = bye_marker"
    proof
      fix pr assume "pr \<in> set ps"
      then have c: "pr = (p, name, p, bye_marker) \<or> pr \<in> set res"
        by (simp add: ps p(2))
      have ns: "\<not> self_paired q" if "q \<in> set res" for q
        using r(2) that by (simp add: filter_empty_conv)
      show "self_paired pr \<longrightarrow> snd (snd (snd pr)) = bye_marker"
      proof (cases "pr \<in> set res")
        case True
        then have "\<not> self_paired pr" by (rule ns)
        then show ?thesis by simp
      next
        case False
        then have "pr = (p, name, p, bye_marker)" using c by simp
        then show ?thesis by simp
      qed
    qed
    ultimately show ?thesis
      using True len by (simp add: odd_iff_mod_2_eq_one)
  qed
qed

text \<open>Four registered players and no match: the first round.\<close>

definition four_players :: database where
  "four_players =
     \<lparr>players = [\<lparr>row_id = 1, row_name = ''A'', row_had_bye = False\<rparr>,
                 \<lparr>row_id = 2, row_name = ''B'', row_had_bye = False\<rparr>,
                 \<lparr>row_id = 3, row_name = ''C'', row_had_bye = False\<rparr>,
                 \<lparr>row_id = 4, row_name = ''D'', row_had_bye = False\<rparr>],
      matches = []\<rparr>"

text \<open>
  C1. For every database with distinct player ids on which \<open>swissPairings\<close> returns a
  pairing list, in the first round (whatever permutation the shuffle applies) as in a
  later one: the slots of the pairings are the ids of the standings, each once; so every
  player id of the standings appears in exactly one pairing of the list; the list has
  exactly one self-paired pairing when the number of players is odd, and none when it is
  even, and a self-paired pairing carries the bye marker. In the first round a pairing
  list is always returned.
\<close>

theorem swissPairings_pairs_every_player_once:
  assumes "distinct (player_ids db)"
    and "mset (shuffle (playerStandings db)) = mset (playerStandings db)"
    and "swissPairings shuffle db = Inr (out, Some ps)"
  shows "mset (concat (map pairing_ids ps)) = mset (map standing_id (playerStandings db)) \<and>
         (\<forall>p \<in> set (map standing_id (playerStandings db)).
            \<exists>!j. j < length ps \<and> p \<in> set (pairing_ids (ps ! j))) \<and>
         length (filter self_paired ps) = (if odd (length (playerStandings db)) then 1 else 0) \<and>
         (\<forall>pr \<in> set ps. self_paired pr \<longrightarrow> snd (snd (snd pr)) = bye_marker) \<and>
         (first_round db \<longrightarrow> (\<exists>ps'. swissPairings shuffle db = Inr ([], Some ps')))"
proof -
  have total: "\<exists>ps'. swissPairings shuffle db = Inr ([], Some ps')" if fr: "first_round db"
  proof -
    define st where "st = shuffle (playerStandings db)"
    have "if length st mod 2 \<noteq> 0 \<and> \<not> False then odd (length st) else even (length st)"
      by presburger
    then obtain res where "pairing_loop (length st mod 2 \<noteq> 0) False st [] = Inr res"
      using pairing_loop_total by blast
    then have "random_pairing shuffle (playerStandings db) [] = Inr res"
      by (simp add: random_pairing_def Let_def st_def)
    then show ?thesis
      by (simp add: swissPairings_first_round [OF fr])
  qed
  have slots: "mset (concat (map pairing_ids ps)) = mset (player_ids db) \<and>
         length (filter self_paired ps) = (if odd (length (players db)) then 1 else 0) \<and>
         (\<forall>pr \<in> set ps. self_paired pr \<longrightarrow> snd (snd (snd pr)) = bye_marker)"
  proof (cases "first_round db")
    case True
    show ?thesis by (rule first_round_slots [OF assms(1,2) True assms(3)])
  next
    case False
    show ?thesis by (rule later_round_slots [OF assms(1) False assms(3)])
  qed
  have ids: "mset (map standing_id (playerStandings db)) = mset (player_ids db)"
    using assms(1) by (rule playerStandings_ids)
  have len: "length (playerStandings db) = length (players db)"
    using assms(1) by (rule playerStandings_length)
  have m: "mset (concat (map pairing_ids ps)) = mset (map standing_id (playerStandings db))"
    using slots ids by simp
  have d: "distinct (concat (map pairing_ids ps))"
    using slots assms(1) by (metis mset_eq_imp_distinct_iff)
  have once: "\<exists>!j. j < length ps \<and> p \<in> set (pairing_ids (ps ! j))"
    if "p \<in> set (map standing_id (playerStandings db))" for p
  proof -
    have "p \<in> set (concat (map pairing_ids ps))"
      using that m by (metis set_mset_mset)
    then obtain j where j: "j < length ps" "p \<in> set (pairing_ids (ps ! j))"
      using concat_index_exists [of p "map pairing_ids ps"] by auto
    have "k = j" if "k < length ps" "p \<in> set (pairing_ids (ps ! k))" for k
      using concat_index_unique [OF d, of k j p] that j by simp
    then show ?thesis using j by blast
  qed
  show ?thesis
    using m once slots len total by simp
qed

theorem swissPairings_pairs_every_player_once_witness:
  "swissPairings rev four_players = Inr ([], Some [(4, ''D'', 3, ''C''), (2, ''B'', 1, ''A'')]) \<and>
   mset (concat (map pairing_ids [(4, ''D'', 3, ''C''), (2, ''B'', 1, ''A'')])) = mset [1, 2, 3, 4] \<and>
   (\<exists>ps. swissPairings id after_round_one = Inr ([], Some ps) \<and>
         mset (concat (map pairing_ids ps)) = mset [1, 2, 3] \<and>
         length (filter self_paired ps) = 1)"
proof -
  have d1: "distinct (player_ids four_players)"
    and s1: "mset (rev (playerStandings four_players)) = mset (playerStandings four_players)"
    and r1: "swissPairings rev four_players =
        Inr ([], Some [(4, ''D'', 3, ''C''), (2, ''B'', 1, ''A'')])"
    and i1: "mset (map standing_id (playerStandings four_players)) = mset [1, 2, 3, 4]"
    by code_simp+
  have d2: "distinct (player_ids after_round_one)"
    and s2: "mset (id (playerStandings after_round_one)) = mset (playerStandings after_round_one)"
    and r2: "swissPairings id after_round_one =
        Inr ([], Some [(2, ''B'', 2, bye_marker), (1, ''A'', 3, ''C'')])"
    and i2: "mset (map standing_id (playerStandings after_round_one)) = mset [1, 2, 3]"
    and o2: "odd (length (playerStandings after_round_one))"
    by code_simp+
  have "mset (concat (map pairing_ids [(4, ''D'', 3, ''C''), (2, ''B'', 1, ''A'')])) = mset [1, 2, 3, 4]"
    using swissPairings_pairs_every_player_once [OF d1 s1 r1] i1 by simp
  moreover have "mset (concat (map pairing_ids [(2, ''B'', 2, bye_marker), (1, ''A'', 3, ''C'')]))
      = mset [1, 2, 3] \<and>
      length (filter self_paired [(2, ''B'', 2, bye_marker), (1, ''A'', 3, ''C'')]) = 1"
    using swissPairings_pairs_every_player_once [OF d2 s2 r2] i2 o2 by simp
  ultimately show ?thesis
    using r1 r2 by simp
qed

section \<open>No rematch in the pairings\<close>






section \<open>The bye and the database\<close>

lemma filter_key_single:
  "distinct (map f xs) \<Longrightarrow> r \<in> set xs \<Longrightarrow> filter (\<lambda>x. f x = f r) xs = [r]"
proof (induction xs)
  case Nil
  then show ?case by simp
next
  case (Cons y ys)
  show ?case
  proof (cases "r = y")
    case True
    have "f y \<notin> f ` set ys"
      using Cons.prems(1) by simp
    then have "\<forall>x \<in> set ys. f x \<noteq> f y"
      by (metis imageI)
    then have "filter (\<lambda>x. f x = f y) ys = []"
      by (simp add: filter_empty_conv)
    then show ?thesis using True by simp
  next
    case False
    then have r: "r \<in> set ys" using Cons.prems(2) by simp
    have "f y \<notin> f ` set ys"
      using Cons.prems(1) by simp
    then have "f y \<noteq> f r"
      using r by (metis imageI)
    then show ?thesis
      using Cons.IH r Cons.prems(1) by simp
  qed
qed

lemma select_player_for_bye_had_bye:
  assumes "distinct (player_ids db)" and "select_player_for_bye db = Inr p"
  shows "had_bye_of db p = Some False"
proof -
  obtain r where r: "r \<in> set (players db)" "row_id r = p" "\<not> row_had_bye r"
    using select_player_for_bye_some [OF assms(2)] by blast
  have "filter (\<lambda>x. row_id x = row_id r) (players db) = [r]"
    using assms(1) r(1) unfolding player_ids_def by (rule filter_key_single)
  then show ?thesis
    using r(2,3) by (simp add: had_bye_of_def)
qed

text \<open>
  C6, as the claim states it, fails: three players after a first round, player 2
  without a bye so far. \<open>swissPairings\<close> gives player 2 the bye, and in the database
  it leaves, \<open>had_bye\<close> of player 2 is still false.
\<close>

theorem swissPairings_bye_not_recorded_counterexample:
  "fst (swissPairings_call id after_round_one) =
     Inr ([], Some [(2, ''B'', 2, bye_marker), (1, ''A'', 3, ''C'')]) \<and>
   had_bye_of (snd (swissPairings_call id after_round_one)) 2 = Some False \<and>
   had_bye_of (snd (swissPairings_call id after_round_one)) 2 \<noteq> Some True"
  by code_simp

text \<open>
  C6, amended. On a successful bye assignment during the pairing computation, the
  engine removes the chosen id from its win group and puts the self-paired bye pairing
  first in the result, where the id appears in no other pairing. The computation leaves
  the database as it was: the chosen player still has \<open>had_bye\<close> false, and \<open>had_bye\<close>
  becomes true, with a bye match recorded, when the bye is reported with
  \<open>reportMatch\<close> and no loser.
\<close>

theorem swissPairings_bye_assignment:
  assumes "distinct (player_ids db)" and "\<not> first_round db"
    and "odd (length (playerStandings db))"
    and "swissPairings shuffle db = Inr (out, Some ps)"
  shows "\<exists>p name rest.
     select_player_for_bye db = Inr p \<and> id_to_name db p = Inr name \<and>
     give_bye db (win_groups_of db) [] =
       Inr (remove_from_groups p (win_groups_of db), [(p, name, p, bye_marker)]) \<and>
     mset (concat (remove_from_groups p (win_groups_of db)))
       = mset (concat (win_groups_of db)) - {#p#} \<and>
     p \<in> set (concat (win_groups_of db)) \<and>
     ps = (p, name, p, bye_marker) # rest \<and> p \<notin> set (concat (map pairing_ids rest)) \<and>
     swissPairings_call shuffle db = (Inr (out, Some ps), db) \<and>
     had_bye_of db p = Some False \<and>
     (\<exists>db'. reportMatch db p None = Inr ([], db') \<and> had_bye_of db' p = Some True \<and>
            matches db' = matches db @ [(p, None)])"
proof -
  from swissPairings_later_result [OF assms(2,4)] obtain g0 p1 g2 res where
    bye: "(if length (playerStandings db) mod 2 \<noteq> 0
         then give_bye db (win_groups_of db) [] else Inr (win_groups_of db, [])) = Inr (g0, p1)"
    and ps: "ps = p1 @ res"
    by blast
  have "length (playerStandings db) mod 2 \<noteq> 0"
    using assms(3) by (simp add: odd_iff_mod_2_eq_one)
  then have gb: "give_bye db (win_groups_of db) [] = Inr (g0, p1)"
    using bye by simp
  from give_bye_result [OF gb] obtain p name where
    p: "select_player_for_bye db = Inr p" "id_to_name db p = Inr name"
      "g0 = remove_from_groups p (win_groups_of db)" "p1 = [] @ [(p, name, p, bye_marker)]"
      "p \<in> set (player_ids db)"
    by blast
  have cover: "mset (concat (win_groups_of db)) = mset (player_ids db)"
    using assms(1) by (rule win_groups_of_cover)
  then have mem: "p \<in> set (concat (win_groups_of db))"
    using p(5) by (metis set_mset_mset)
  then have rm: "mset (concat (remove_from_groups p (win_groups_of db)))
      = mset (concat (win_groups_of db)) - {#p#}"
    by (rule remove_from_groups_mset)
  have ps': "ps = (p, name, p, bye_marker) # res"
    using ps p(4) by simp
  have "mset (concat (map pairing_ids ps)) = mset (player_ids db)"
    using later_round_slots [OF assms(1,2,4)] by simp
  then have "distinct (concat (map pairing_ids ps))"
    using assms(1) by (metis mset_eq_imp_distinct_iff)
  then have notin: "p \<notin> set (concat (map pairing_ids res))"
    by (simp add: ps' pairing_ids_def self_paired_def)
  have hb: "had_bye_of db p = Some False"
    using assms(1) p(1) by (rule select_player_for_bye_had_bye)
  have rep: "\<exists>db'. reportMatch db p None = Inr ([], db') \<and> had_bye_of db' p = Some True \<and>
            matches db' = matches db @ [(p, None)]"
    using reportMatch_first_bye [OF hb] had_bye_of_marked [OF hb] by simp
  have call: "swissPairings_call shuffle db = (Inr (out, Some ps), db)"
    using assms(4) by (simp add: swissPairings_call_def)
  show ?thesis
    using p(1,2) gb p(3,4) rm mem ps' notin call hb rep by auto
qed

theorem swissPairings_bye_assignment_witness:
  "select_player_for_bye after_round_one = Inr 2 \<and>
   swissPairings_call id after_round_one =
     (Inr ([], Some [(2, ''B'', 2, bye_marker), (1, ''A'', 3, ''C'')]), after_round_one) \<and>
   had_bye_of after_round_one 2 = Some False \<and>
   (\<exists>db'. reportMatch after_round_one 2 None = Inr ([], db') \<and> had_bye_of db' 2 = Some True)"
proof -
  have d: "distinct (player_ids after_round_one)"
    and n: "\<not> first_round after_round_one"
    and o: "odd (length (playerStandings after_round_one))"
    and r: "swissPairings id after_round_one =
        Inr ([], Some [(2, ''B'', 2, bye_marker), (1, ''A'', 3, ''C'')])"
    by code_simp+
  from swissPairings_bye_assignment [OF d n o r] obtain p name rest where
    p: "select_player_for_bye after_round_one = Inr p"
      "[(2, ''B'', 2, bye_marker), (1, ''A'', 3, ''C'')] = (p, name, p, bye_marker) # rest"
      "swissPairings_call id after_round_one =
        (Inr ([], Some [(2, ''B'', 2, bye_marker), (1, ''A'', 3, ''C'')]), after_round_one)"
      "had_bye_of after_round_one p = Some False"
      "\<exists>db'. reportMatch after_round_one p None = Inr ([], db') \<and> had_bye_of db' p = Some True \<and>
         matches db' = matches after_round_one @ [(p, None)]"
    by blast
  have "p = 2" using p(2) by simp
  then show ?thesis using p(1,3,4,5) by auto
qed

end
